theory Spec2Isabelle
  imports Main "HOL-Library.Word"
begin

unbundle bit_operations_syntax

section \<open>The fixed-size block pool of mempool.c\<close>

text \<open>
  The embedding follows the two-buffer implementation (the one that matches
  \<^verbatim>\<open>include/mempool.h\<close>: an opaque \<^verbatim>\<open>struct mempool\<close> placed in a caller-provided state
  buffer). The data model is LP64 with little-endian byte order, the model of the hosts
  the test suites run on: \<^verbatim>\<open>size_t\<close> and \<^verbatim>\<open>uintptr_t\<close> are 64-bit words, \<^verbatim>\<open>uint32_t\<close> is a
  32-bit word, a pointer is an address of 64 bits with 0 for \<^verbatim>\<open>NULL\<close>, a pointer in memory
  occupies 8 bytes, and \<^verbatim>\<open>sizeof(free_node_t)\<close> is 8. The code
  itself compares \<^verbatim>\<open>size_t\<close> values with \<^verbatim>\<open>(size_t)UINT32_MAX\<close> and casts them to
  \<^verbatim>\<open>uint32_t\<close>, which only has an effect where \<^verbatim>\<open>size_t\<close> is wider than 32 bits. All
  arithmetic wraps as the C arithmetic on unsigned types does; a division by zero is
  undefined behaviour and is the outcome \<open>Undefined\<close>.
\<close>

type_synonym size_t = "64 word"
type_synonym uintptr_t = "64 word"
type_synonym uint32_t = "32 word"
type_synonym uint8_t = "8 word"

datatype mempool_error =
    MEMPOOL_OK
  | MEMPOOL_ERR_NULL_PTR
  | MEMPOOL_ERR_INVALID_SIZE
  | MEMPOOL_ERR_OUT_OF_MEMORY
  | MEMPOOL_ERR_INVALID_BLOCK
  | MEMPOOL_ERR_ALIGNMENT
  | MEMPOOL_ERR_DOUBLE_FREE
  | MEMPOOL_ERR_NOT_INITIALIZED

text \<open>\<^verbatim>\<open>mempool_sync_t\<close>: two function pointers and the context pointer.\<close>

record mempool_sync =
  lock :: uintptr_t
  unlock :: uintptr_t
  user_ctx :: uintptr_t

record mempool_stats =
  total_blocks :: uint32_t
  used_blocks :: uint32_t
  free_blocks :: uint32_t
  peak_usage :: uint32_t
  alloc_count :: uint32_t
  free_count :: uint32_t
  block_size :: uint32_t

text \<open>
  \<^verbatim>\<open>struct mempool\<close>, field by field. The statistics record repeats three field names
  of the structure; where both are meant, those of the statistics are written with
  their record name (\<open>mempool_stats.total_blocks\<close>).

  The last two fields are not members of the C structure. They are the contents of
  the pool region, which the pool owns: \<open>bitmap_mem\<close> is the byte array that the
  \<open>bitmap\<close> pointer addresses (indexed from that pointer), and \<open>block_mem a\<close> is the
  byte at address \<open>a\<close> of the blocks. The \<^verbatim>\<open>next\<close> field of a \<^verbatim>\<open>free_node_t\<close> placed at a
  block is the 8 bytes from the address of the block on, so that the links of blocks
  that are less than 8 bytes apart share bytes. The bitmap occupies the first
  \<open>bitmap_bytes\<close> bytes of the region and the blocks start at
  \<open>blocks_offset \<ge> bitmap_bytes\<close>, so a store to a node in the blocks never touches a
  bitmap byte; that is why the two are separate components.
\<close>

record mempool =
  pool_buffer_start :: uintptr_t
  blocks_start :: uintptr_t
  free_list :: uintptr_t
  bitmap :: uintptr_t
  bitmap_bytes :: uint32_t
  block_size :: uint32_t
  total_blocks :: uint32_t
  free_blocks :: uint32_t
  alignment :: uint32_t
  stats :: mempool_stats
  sync :: mempool_sync
  sync_enabled :: bool
  initialized :: bool
  bitmap_mem :: "nat \<Rightarrow> uint8_t"
  block_mem :: "uintptr_t \<Rightarrow> uint8_t"

text \<open>
  A call of a user callback: the function pointer called and the context passed.
  The calls an operation makes are part of its outcome, in the order they are made.
\<close>

datatype hook_call = Hook_call uintptr_t uintptr_t

text \<open>
  The outcome of an operation: undefined behaviour, or a return with the error code,
  the pool object afterwards (\<open>None\<close> where the pool pointer was \<^verbatim>\<open>NULL\<close>), the value
  stored through the output pointer (\<open>None\<close> where nothing was stored), and the
  callbacks that were called.
\<close>

datatype 'a outcome =
    Undefined
  | Returned mempool_error "mempool option" "'a option" "hook_call list"

definition sizeof_mempool :: size_t where
  "sizeof_mempool = 112"

definition sizeof_free_node_t :: size_t where
  "sizeof_free_node_t = 8"

definition UINT32_MAX :: size_t where
  "UINT32_MAX = 4294967295"

definition is_power_of_two :: "size_t \<Rightarrow> bool" where
  "is_power_of_two val = (if val > 0 then (val AND (val - 1)) = 0 else False)"

definition align_up :: "size_t \<Rightarrow> size_t \<Rightarrow> size_t" where
  "align_up val align = (let mask = align - 1 in (val + mask) AND NOT mask)"

definition mempool_internal_lock :: "mempool \<Rightarrow> hook_call list" where
  "mempool_internal_lock pool =
     (if sync_enabled pool then
        (if lock (sync pool) \<noteq> 0 then [Hook_call (lock (sync pool)) (user_ctx (sync pool))]
         else [])
      else [])"

definition mempool_internal_unlock :: "mempool \<Rightarrow> hook_call list" where
  "mempool_internal_unlock pool =
     (if sync_enabled pool then
        (if unlock (sync pool) \<noteq> 0 then [Hook_call (unlock (sync pool)) (user_ctx (sync pool))]
         else [])
      else [])"

text \<open>
  \<^verbatim>\<open>mempool_block_index\<close>: the offset of the pointer in the blocks, divided by the block
  size and cast to 32 bits. The division is undefined for a block size of 0.
\<close>

definition mempool_block_index :: "mempool \<Rightarrow> uintptr_t \<Rightarrow> uint32_t option" where
  "mempool_block_index pool ptr =
     (let base = blocks_start pool;
          off = ptr - base
      in if block_size pool = 0 then None
         else Some (ucast (off div ucast (block_size pool))))"

text \<open>The mask \<^verbatim>\<open>(uint8_t)(1U << bit_index)\<close>.\<close>

definition bit_mask :: "uint32_t \<Rightarrow> uint8_t" where
  "bit_mask bit_index = ucast (push_bit (unat bit_index) (1 :: uint32_t))"

subsection \<open>Initialisation\<close>

text \<open>
  The search loop of \<^verbatim>\<open>mempool_init\<close>. Its state is \<open>n\<close>, \<open>bitmap_bytes\<close> and
  \<open>blocks_offset\<close>; it returns them with the flag \<open>found\<close>.
\<close>

function plan_loop ::
  "size_t \<Rightarrow> size_t \<Rightarrow> size_t \<Rightarrow> size_t \<Rightarrow> size_t \<Rightarrow> size_t
     \<Rightarrow> size_t \<times> size_t \<times> size_t \<times> bool" where
  "plan_loop pool_buffer_size aligned_block_size align n bitmap_bytes0 blocks_offset0 =
     (if n > 0 then
        (let bitmap_bytes1 = (n + 7) div 8;
             bitmap_end = bitmap_bytes1;
             pad = (if align > 1 then
                      (let md = bitmap_end AND (align - 1)
                       in if md \<noteq> 0 then align - md else 0)
                    else 0);
             blocks_offset1 = bitmap_end + pad;
             required = blocks_offset1 + (n * aligned_block_size)
         in if required \<le> pool_buffer_size then (n, bitmap_bytes1, blocks_offset1, True)
            else plan_loop pool_buffer_size aligned_block_size align (n - 1)
                   bitmap_bytes1 blocks_offset1)
      else (n, bitmap_bytes0, blocks_offset0, False))"
  by pat_completeness auto
termination
  by (relation "measure (\<lambda>(p, a, al, n, b, bo). unat n)")
     (auto simp: word_greater_zero_iff unat_minus_one unat_gt_0)

text \<open>
  The store \<^verbatim>\<open>node->next = v\<close> to the node at address \<open>a\<close> and the load \<^verbatim>\<open>node->next\<close> from
  it: the 8 bytes at \<open>a\<close>, ..., \<open>a + 7\<close> (addresses wrap around), the least significant
  byte first.
\<close>

definition store_ptr ::
  "(uintptr_t \<Rightarrow> uint8_t) \<Rightarrow> uintptr_t \<Rightarrow> uintptr_t \<Rightarrow> (uintptr_t \<Rightarrow> uint8_t)" where
  "store_ptr mem a v =
     (\<lambda>x. if x - a < 8 then ucast (drop_bit (8 * unat (x - a)) v) else mem x)"

definition load_ptr :: "(uintptr_t \<Rightarrow> uint8_t) \<Rightarrow> uintptr_t \<Rightarrow> uintptr_t" where
  "load_ptr mem a =
     (ucast (mem a) OR push_bit 8 (ucast (mem (a + 1))) OR push_bit 16 (ucast (mem (a + 2)))
      OR push_bit 24 (ucast (mem (a + 3))) OR push_bit 32 (ucast (mem (a + 4)))
      OR push_bit 40 (ucast (mem (a + 5))) OR push_bit 48 (ucast (mem (a + 6)))
      OR push_bit 56 (ucast (mem (a + 7))))"

text \<open>
  The loop that threads the free list through the blocks: \<open>k\<close> iterations remain,
  \<open>current\<close> is the block to link, \<open>prev_node\<close> the block linked before it, and
  \<open>stride\<close> the distance between blocks. It returns the last block linked and the
  memory.
\<close>

fun build_free_list ::
  "nat \<Rightarrow> uintptr_t \<Rightarrow> uintptr_t \<Rightarrow> size_t \<Rightarrow> (uintptr_t \<Rightarrow> uint8_t)
     \<Rightarrow> uintptr_t \<times> (uintptr_t \<Rightarrow> uint8_t)" where
  "build_free_list 0 current prev_node stride mem = (prev_node, mem)"
| "build_free_list (Suc k) current prev_node stride mem =
     build_free_list k (current + stride) current stride (store_ptr mem current prev_node)"

text \<open>\<^verbatim>\<open>memset(pool->bitmap, 0, len)\<close>.\<close>

definition memset_bitmap :: "(nat \<Rightarrow> uint8_t) \<Rightarrow> nat \<Rightarrow> (nat \<Rightarrow> uint8_t)" where
  "memset_bitmap bm len = (\<lambda>i. if i < len then 0 else bm i)"

text \<open>\<^verbatim>\<open>memset(pool, 0, sizeof(struct mempool))\<close>: every member of the structure is zero.\<close>

definition memset_pool :: "mempool \<Rightarrow> mempool" where
  "memset_pool old =
     \<lparr> pool_buffer_start = 0, blocks_start = 0, free_list = 0, bitmap = 0,
       bitmap_bytes = 0, block_size = 0, total_blocks = 0, free_blocks = 0, alignment = 0,
       stats = \<lparr> mempool_stats.total_blocks = 0, used_blocks = 0, mempool_stats.free_blocks = 0, peak_usage = 0,
                 alloc_count = 0, free_count = 0, mempool_stats.block_size = 0 \<rparr>,
       sync = \<lparr> lock = 0, unlock = 0, user_ctx = 0 \<rparr>,
       sync_enabled = False, initialized = False,
       bitmap_mem = bitmap_mem old, block_mem = block_mem old \<rparr>"

text \<open>
  \<^verbatim>\<open>mempool_init\<close>. \<open>old\<close> is what the state buffer and the pool region hold before the
  call; \<open>pool_out\<close> tells whether the output pointer is not \<^verbatim>\<open>NULL\<close>. The handle stored
  through it is the address of the state buffer.
\<close>

definition mempool_init ::
  "uintptr_t \<Rightarrow> size_t \<Rightarrow> uintptr_t \<Rightarrow> size_t \<Rightarrow> size_t \<Rightarrow> size_t \<Rightarrow> bool \<Rightarrow> mempool
     \<Rightarrow> uintptr_t outcome" where
  "mempool_init state_buffer state_buffer_size pool_buffer pool_buffer_size block_sz align
       pool_out old =
     (if state_buffer = 0 \<or> pool_buffer = 0 \<or> \<not> pool_out then
        Returned MEMPOOL_ERR_NULL_PTR (Some old) None []
      else if state_buffer_size < sizeof_mempool then
        Returned MEMPOOL_ERR_INVALID_SIZE (Some old) None []
      else if pool_buffer_size = 0 \<or> block_sz = 0 then
        Returned MEMPOOL_ERR_INVALID_SIZE (Some old) None []
      else if \<not> is_power_of_two align then
        Returned MEMPOOL_ERR_ALIGNMENT (Some old) None []
      else if (pool_buffer AND (align - 1)) \<noteq> 0 then
        Returned MEMPOOL_ERR_ALIGNMENT (Some old) None []
      else if block_sz < sizeof_free_node_t then
        Returned MEMPOOL_ERR_INVALID_SIZE (Some old) None []
      else
        (let pool = memset_pool old;
             aligned_block_size = align_up block_sz align
         in if aligned_block_size = 0 then Undefined
            else
              (let max_blocks = pool_buffer_size div aligned_block_size
               in if max_blocks = 0 then
                    Returned MEMPOOL_ERR_INVALID_SIZE (Some pool) None []
                  else
                    (case plan_loop pool_buffer_size aligned_block_size align max_blocks 0 0 of
                       (n, bitmap_bytes1, blocks_offset, found) \<Rightarrow>
                         if \<not> found \<or> n = 0 then
                           Returned MEMPOOL_ERR_INVALID_SIZE (Some pool) None []
                         else if n > UINT32_MAX \<or> bitmap_bytes1 > UINT32_MAX then
                           Returned MEMPOOL_ERR_INVALID_SIZE (Some pool) None []
                         else
                           (let start = pool_buffer + blocks_offset;
                                total = (ucast n :: uint32_t);
                                bsize = (ucast aligned_block_size :: uint32_t);
                                (prev_node, mem) =
                                   build_free_list (unat total) start 0 aligned_block_size
                                     (block_mem pool)
                            in Returned MEMPOOL_OK
                                 (Some \<lparr> pool_buffer_start = pool_buffer,
                                         blocks_start = start,
                                         free_list = prev_node,
                                         bitmap = pool_buffer,
                                         bitmap_bytes = ucast bitmap_bytes1,
                                         block_size = bsize,
                                         total_blocks = total,
                                         free_blocks = total,
                                         alignment = ucast align,
                                         stats = \<lparr> mempool_stats.total_blocks = total, used_blocks = 0,
                                                   mempool_stats.free_blocks = total, peak_usage = 0,
                                                   alloc_count = 0, free_count = 0,
                                                   mempool_stats.block_size = bsize \<rparr>,
                                         sync = \<lparr> lock = 0, unlock = 0, user_ctx = 0 \<rparr>,
                                         sync_enabled = False,
                                         initialized = True,
                                         bitmap_mem =
                                           memset_bitmap (bitmap_mem pool) (unat bitmap_bytes1),
                                         block_mem = mem \<rparr>)
                                 (Some state_buffer) [])))))"

subsection \<open>Allocation and release\<close>

text \<open>
  \<^verbatim>\<open>mempool_alloc\<close>. \<open>pool\<close> is \<open>None\<close> for a \<^verbatim>\<open>NULL\<close> handle; \<open>block\<close> tells whether the
  output pointer is not \<^verbatim>\<open>NULL\<close>.
\<close>

definition mempool_alloc :: "mempool option \<Rightarrow> bool \<Rightarrow> uintptr_t outcome" where
  "mempool_alloc pool block =
     (case pool of
        None \<Rightarrow> Returned MEMPOOL_ERR_NULL_PTR None None []
      | Some p \<Rightarrow>
          if \<not> block then Returned MEMPOOL_ERR_NULL_PTR (Some p) None []
          else if \<not> initialized p then Returned MEMPOOL_ERR_NOT_INITIALIZED (Some p) None []
          else if free_list p = 0 then
            Returned MEMPOOL_ERR_OUT_OF_MEMORY (Some p) None
              (mempool_internal_lock p @ mempool_internal_unlock p)
          else if free_blocks p = 0 then
            Returned MEMPOOL_ERR_OUT_OF_MEMORY (Some p) None
              (mempool_internal_lock p @ mempool_internal_unlock p)
          else
            (let node = free_list p;
                 p1 = p\<lparr> free_list := load_ptr (block_mem p) node,
                        free_blocks := free_blocks p - 1 \<rparr>;
                 s1 = (stats p1)\<lparr> alloc_count := alloc_count (stats p1) + 1,
                                  used_blocks := total_blocks p1 - free_blocks p1,
                                  mempool_stats.free_blocks := free_blocks p1 \<rparr>;
                 s2 = (if used_blocks s1 > peak_usage s1
                       then s1\<lparr> peak_usage := used_blocks s1 \<rparr> else s1);
                 p2 = p1\<lparr> stats := s2 \<rparr>
             in case mempool_block_index p2 node of
                  None \<Rightarrow> Undefined
                | Some index \<Rightarrow>
                    (let byte_index = index div 8;
                         bit_index = index mod 8;
                         mask = bit_mask bit_index;
                         p3 = (if byte_index < bitmap_bytes p2 then
                                 p2\<lparr> bitmap_mem := (bitmap_mem p2)
                                        (unat byte_index :=
                                           bitmap_mem p2 (unat byte_index) OR mask) \<rparr>
                               else p2)
                     in Returned MEMPOOL_OK (Some p3) (Some node)
                          (mempool_internal_lock p @ mempool_internal_unlock p3))))"

text \<open>The two checks that \<^verbatim>\<open>mempool_free\<close> makes before it enters the critical section.\<close>

definition blocks_end_addr :: "mempool \<Rightarrow> uintptr_t" where
  "blocks_end_addr p = blocks_start p + (ucast (total_blocks p) * ucast (block_size p))"

definition range_check :: "mempool \<Rightarrow> uintptr_t \<Rightarrow> bool" where
  "range_check p block_addr = (\<not> (block_addr < blocks_start p \<or> block_addr \<ge> blocks_end_addr p))"

definition boundary_check :: "mempool \<Rightarrow> uintptr_t \<Rightarrow> bool" where
  "boundary_check p block_addr =
     ((block_addr - blocks_start p) mod ucast (block_size p) = 0)"

text \<open>
  \<^verbatim>\<open>mempool_free\<close>. The remainder by the block size is undefined for a block size of 0
  (no pointer passes the range check then, so that the case cannot arise).
\<close>

definition mempool_free :: "mempool option \<Rightarrow> uintptr_t \<Rightarrow> unit outcome" where
  "mempool_free pool block =
     (case pool of
        None \<Rightarrow> Returned MEMPOOL_ERR_NULL_PTR None None []
      | Some p \<Rightarrow>
          if block = 0 then Returned MEMPOOL_ERR_NULL_PTR (Some p) None []
          else if \<not> initialized p then Returned MEMPOOL_ERR_NOT_INITIALIZED (Some p) None []
          else if \<not> range_check p block then
            Returned MEMPOOL_ERR_INVALID_BLOCK (Some p) None []
          else if block_size p = 0 then Undefined
          else if \<not> boundary_check p block then
            Returned MEMPOOL_ERR_INVALID_BLOCK (Some p) None []
          else
            (case mempool_block_index p block of
               None \<Rightarrow> Undefined
             | Some index \<Rightarrow>
                 (let byte_index = index div 8;
                      bit_index = index mod 8;
                      mask = bit_mask bit_index
                  in if byte_index \<ge> bitmap_bytes p then
                       Returned MEMPOOL_ERR_INVALID_BLOCK (Some p) None
                         (mempool_internal_lock p @ mempool_internal_unlock p)
                     else
                       (let byte = bitmap_mem p (unat byte_index)
                        in if (byte AND mask) = 0 then
                             Returned MEMPOOL_ERR_DOUBLE_FREE (Some p) None
                               (mempool_internal_lock p @ mempool_internal_unlock p)
                           else
                             (let p1 = p\<lparr> block_mem := store_ptr (block_mem p) block (free_list p),
                                         free_list := block \<rparr>;
                                  p2 = (if free_blocks p1 < total_blocks p1
                                        then p1\<lparr> free_blocks := free_blocks p1 + 1 \<rparr>
                                        else p1);
                                  s1 = (stats p2)
                                         \<lparr> free_count := free_count (stats p2) + 1,
                                           used_blocks := total_blocks p2 - free_blocks p2,
                                           mempool_stats.free_blocks := free_blocks p2 \<rparr>;
                                  p3 = p2\<lparr> stats := s1,
                                          bitmap_mem := (bitmap_mem p2)
                                            (unat byte_index := byte AND NOT mask) \<rparr>
                              in Returned MEMPOOL_OK (Some p3) None
                                   (mempool_internal_lock p @ mempool_internal_unlock p3))))))"

subsection \<open>Statistics, reset and the hook\<close>

definition mempool_get_stats :: "mempool option \<Rightarrow> bool \<Rightarrow> mempool_stats outcome" where
  "mempool_get_stats pool stats_out =
     (case pool of
        None \<Rightarrow> Returned MEMPOOL_ERR_NULL_PTR None None []
      | Some p \<Rightarrow>
          if \<not> stats_out then Returned MEMPOOL_ERR_NULL_PTR (Some p) None []
          else if \<not> initialized p then Returned MEMPOOL_ERR_NOT_INITIALIZED (Some p) None []
          else Returned MEMPOOL_OK (Some p) (Some (stats p))
                 (mempool_internal_lock p @ mempool_internal_unlock p))"

definition mempool_reset :: "mempool option \<Rightarrow> unit outcome" where
  "mempool_reset pool =
     (case pool of
        None \<Rightarrow> Returned MEMPOOL_ERR_NULL_PTR None None []
      | Some p \<Rightarrow>
          if \<not> initialized p then Returned MEMPOOL_ERR_NOT_INITIALIZED (Some p) None []
          else
            (let bm = memset_bitmap (bitmap_mem p) (unat (bitmap_bytes p));
                 (prev_node, mem) =
                    build_free_list (unat (total_blocks p)) (blocks_start p) 0
                      (ucast (block_size p)) (block_mem p);
                 p1 = p\<lparr> bitmap_mem := bm, block_mem := mem, free_list := prev_node,
                         free_blocks := total_blocks p \<rparr>;
                 p2 = p1\<lparr> stats := \<lparr> mempool_stats.total_blocks = total_blocks p1, used_blocks = 0,
                                      mempool_stats.free_blocks = total_blocks p1, peak_usage = 0,
                                      alloc_count = 0, free_count = 0,
                                      mempool_stats.block_size = block_size p1 \<rparr> \<rparr>
             in Returned MEMPOOL_OK (Some p2) None
                  (mempool_internal_lock p @ mempool_internal_unlock p2)))"

definition mempool_set_sync ::
  "mempool option \<Rightarrow> uintptr_t \<Rightarrow> uintptr_t \<Rightarrow> uintptr_t \<Rightarrow> unit outcome" where
  "mempool_set_sync pool lock_fn unlock_fn ctx =
     (case pool of
        None \<Rightarrow> Returned MEMPOOL_ERR_NULL_PTR None None []
      | Some p \<Rightarrow>
          if \<not> initialized p then Returned MEMPOOL_ERR_NOT_INITIALIZED (Some p) None []
          else Returned MEMPOOL_OK
                 (Some (p\<lparr> sync := \<lparr> lock = lock_fn, unlock = unlock_fn, user_ctx = ctx \<rparr>,
                           sync_enabled := (lock_fn \<noteq> 0 \<and> unlock_fn \<noteq> 0) \<rparr>))
                 None [])"

section \<open>Reachable pools and the quantities the proofs count\<close>

declare plan_loop.simps [simp del]

text \<open>
  The set of block indices whose bit is set in the first \<open>len\<close> bytes of a bitmap
  (bit \<open>i mod 8\<close> of byte \<open>i div 8\<close>), and that set for a pool.
\<close>

definition marked_in :: "(nat \<Rightarrow> uint8_t) \<Rightarrow> nat \<Rightarrow> nat set" where
  "marked_in bm len = {i. i div 8 < len \<and> bit (bm (i div 8)) (i mod 8)}"

definition marked :: "mempool \<Rightarrow> nat set" where
  "marked p = marked_in (bitmap_mem p) (unat (bitmap_bytes p))"

text \<open>
  The invariant of the counters: the statistics mirror the fields of the structure, at
  most \<open>total_blocks\<close> blocks are free, the peak is at least the usage, the two event
  counters differ by the usage, the bitmap has one bit for each block, and the blocks
  marked in the bitmap together with the free ones are at most \<open>total_blocks\<close>.
\<close>

definition counts_inv :: "mempool \<Rightarrow> bool" where
  "counts_inv p \<longleftrightarrow>
     initialized p \<and>
     mempool_stats.total_blocks (stats p) = total_blocks p \<and>
     used_blocks (stats p) = total_blocks p - free_blocks p \<and>
     mempool_stats.free_blocks (stats p) = free_blocks p \<and>
     free_blocks p \<le> total_blocks p \<and>
     used_blocks (stats p) \<le> peak_usage (stats p) \<and>
     alloc_count (stats p) - free_count (stats p) = used_blocks (stats p) \<and>
     card (marked p) + unat (free_blocks p) \<le> unat (total_blocks p) \<and>
     unat (bitmap_bytes p) = (unat (total_blocks p) + 7) div 8"

text \<open>
  A pointer that the pool regards as handed out: \<^verbatim>\<open>mempool_free\<close> would accept it. Between
  two calls the caller may store to the bytes of such a block, \<open>block_size\<close> bytes from
  the pointer on; the first 8 of them are the bytes that a later \<^verbatim>\<open>mempool_free\<close>
  overwrites with the link.
\<close>

definition held :: "mempool \<Rightarrow> uintptr_t \<Rightarrow> bool" where
  "held p a \<longleftrightarrow>
     range_check p a \<and> block_size p \<noteq> 0 \<and> boundary_check p a \<and>
     (case mempool_block_index p a of
        None \<Rightarrow> False
      | Some index \<Rightarrow>
          index div 8 < bitmap_bytes p \<and>
          (bitmap_mem p (unat (index div 8)) AND bit_mask (index mod 8)) \<noteq> 0)"

text \<open>
  One step of a program that uses a pool: a call of a public operation that returns,
  with any arguments, or a store of the caller to a byte of a block it holds.
\<close>

inductive step :: "mempool \<Rightarrow> mempool \<Rightarrow> bool" where
  step_alloc:
    "mempool_alloc (Some p) block = Returned e (Some p') out calls \<Longrightarrow> step p p'"
| step_free:
    "mempool_free (Some p) blk = Returned e (Some p') out' calls \<Longrightarrow> step p p'"
| step_reset:
    "mempool_reset (Some p) = Returned e (Some p') out' calls \<Longrightarrow> step p p'"
| step_get_stats:
    "mempool_get_stats (Some p) stats_out = Returned e (Some p') out'' calls \<Longrightarrow> step p p'"
| step_set_sync:
    "mempool_set_sync (Some p) lock_fn unlock_fn ctx = Returned e (Some p') out' calls
       \<Longrightarrow> step p p'"
| step_write:
    "held p a \<Longrightarrow> k < ucast (block_size p)
       \<Longrightarrow> step p (p\<lparr> block_mem := (block_mem p)(a + k := v) \<rparr>)"

text \<open>
  The pools that a program can hold: the result of a successful \<^verbatim>\<open>mempool_init\<close> (on any
  buffers, with any contents), followed by any number of steps.
\<close>

inductive reachable :: "mempool \<Rightarrow> bool" where
  reach_init:
    "mempool_init state_buffer state_buffer_size pool_buffer pool_buffer_size block_sz align
        pool_out old = Returned MEMPOOL_OK (Some p) out calls \<Longrightarrow> reachable p"
| reach_step:
    "reachable p \<Longrightarrow> step p p' \<Longrightarrow> reachable p'"

text \<open>
  A small pool for the concrete checks: a pool region of 40 bytes at address \<open>0x2000\<close>,
  blocks of 8 bytes, alignment 8. \<open>blank\<close> is zeroed memory, \<open>example_mem\<close> the bytes of the blocks after the four links
  were stored, \<open>example_pool\<close> the pool after
  \<^verbatim>\<open>mempool_init\<close> (4 blocks at \<open>0x2008\<close>, \<open>0x2010\<close>, \<open>0x2018\<close>, \<open>0x2020\<close>), and
  \<open>example_pool_1\<close> the pool after one \<^verbatim>\<open>mempool_alloc\<close>.
\<close>

definition blank :: mempool where
  "blank =
     \<lparr> pool_buffer_start = 0, blocks_start = 0, free_list = 0, bitmap = 0,
       bitmap_bytes = 0, block_size = 0, total_blocks = 0, free_blocks = 0, alignment = 0,
       stats = \<lparr> mempool_stats.total_blocks = 0, used_blocks = 0,
                 mempool_stats.free_blocks = 0, peak_usage = 0,
                 alloc_count = 0, free_count = 0, mempool_stats.block_size = 0 \<rparr>,
       sync = \<lparr> lock = 0, unlock = 0, user_ctx = 0 \<rparr>,
       sync_enabled = False, initialized = False,
       bitmap_mem = (\<lambda>_. 0), block_mem = (\<lambda>_. 0) \<rparr>"

definition example_mem :: "uintptr_t \<Rightarrow> uint8_t" where
  "example_mem =
     store_ptr (store_ptr (store_ptr (store_ptr (\<lambda>_. 0) 0x2008 0) 0x2010 0x2008)
       0x2018 0x2010) 0x2020 0x2018"

definition example_pool :: mempool where
  "example_pool =
     \<lparr> pool_buffer_start = 0x2000, blocks_start = 0x2008, free_list = 0x2020,
       bitmap = 0x2000, bitmap_bytes = 1, block_size = 8, total_blocks = 4,
       free_blocks = 4, alignment = 8,
       stats = \<lparr> mempool_stats.total_blocks = 4, used_blocks = 0,
                 mempool_stats.free_blocks = 4, peak_usage = 0,
                 alloc_count = 0, free_count = 0, mempool_stats.block_size = 8 \<rparr>,
       sync = \<lparr> lock = 0, unlock = 0, user_ctx = 0 \<rparr>,
       sync_enabled = False, initialized = True,
       bitmap_mem = (\<lambda>_. 0),
       block_mem = example_mem \<rparr>"

definition example_pool_1 :: mempool where
  "example_pool_1 =
     example_pool
       \<lparr> free_list := 0x2018, free_blocks := 3,
         stats := \<lparr> mempool_stats.total_blocks = 4, used_blocks = 1,
                    mempool_stats.free_blocks = 3, peak_usage = 1,
                    alloc_count = 1, free_count = 0, mempool_stats.block_size = 8 \<rparr>,
         bitmap_mem := (\<lambda>_. 0)(0 := 8) \<rparr>"

text \<open>
  \<open>n\<close> calls of \<^verbatim>\<open>mempool_alloc\<close> in a row, each of which returns \<^verbatim>\<open>MEMPOOL_OK\<close>: the pool
  afterwards and the blocks returned, in the order of the calls; \<open>None\<close> if one of the
  calls does not return a block.
\<close>

fun alloc_n :: "nat \<Rightarrow> mempool \<Rightarrow> (mempool \<times> uintptr_t list) option" where
  "alloc_n 0 p = Some (p, [])"
| "alloc_n (Suc n) p =
     (case mempool_alloc (Some p) True of
        Returned MEMPOOL_OK (Some p') (Some b) calls \<Rightarrow>
          (case alloc_n n p' of
             Some (q, bs) \<Rightarrow> Some (q, b # bs)
           | None \<Rightarrow> None)
      | _ \<Rightarrow> None)"

text \<open>
  The pool after a successful \<^verbatim>\<open>mempool_free\<close> of \<open>blk\<close> with block index \<open>index\<close>, as the
  specification describes it: the block is pushed onto the free list (its first 8
  bytes receive the old head), \<open>free_blocks\<close> and \<open>free_count\<close> are incremented,
  \<open>used_blocks\<close> is recomputed and the bit is cleared; nothing else changes.
\<close>

definition free_post :: "mempool \<Rightarrow> uintptr_t \<Rightarrow> uint32_t \<Rightarrow> mempool" where
  "free_post p blk index =
     p\<lparr> block_mem := store_ptr (block_mem p) blk (free_list p),
        free_list := blk,
        free_blocks := free_blocks p + 1,
        stats := (stats p)\<lparr> free_count := free_count (stats p) + 1,
                           used_blocks := total_blocks p - (free_blocks p + 1),
                           mempool_stats.free_blocks := free_blocks p + 1 \<rparr>,
        bitmap_mem := (bitmap_mem p)
          (unat (index div 8) :=
             bitmap_mem p (unat (index div 8)) AND NOT (bit_mask (index mod 8))) \<rparr>"

text \<open>
  The operations that enter the critical section, and runs of them: the pool at the
  end and all callbacks called, in order; \<open>None\<close> if a call does not return.
\<close>

datatype pool_op = Op_alloc bool | Op_free uintptr_t | Op_reset | Op_get_stats bool

fun run_op :: "pool_op \<Rightarrow> mempool \<Rightarrow> (mempool \<times> hook_call list) option" where
  "run_op (Op_alloc block) p =
     (case mempool_alloc (Some p) block of
        Returned e (Some p') out calls \<Rightarrow> Some (p', calls) | _ \<Rightarrow> None)"
| "run_op (Op_free blk) p =
     (case mempool_free (Some p) blk of
        Returned e (Some p') out calls \<Rightarrow> Some (p', calls) | _ \<Rightarrow> None)"
| "run_op Op_reset p =
     (case mempool_reset (Some p) of
        Returned e (Some p') out calls \<Rightarrow> Some (p', calls) | _ \<Rightarrow> None)"
| "run_op (Op_get_stats stats_out) p =
     (case mempool_get_stats (Some p) stats_out of
        Returned e (Some p') out calls \<Rightarrow> Some (p', calls) | _ \<Rightarrow> None)"

fun run_ops :: "pool_op list \<Rightarrow> mempool \<Rightarrow> (mempool \<times> hook_call list) option" where
  "run_ops [] p = Some (p, [])"
| "run_ops (x # xs) p =
     (case run_op x p of
        None \<Rightarrow> None
      | Some (p', calls) \<Rightarrow>
          (case run_ops xs p' of
             None \<Rightarrow> None
           | Some (q, calls') \<Rightarrow> Some (q, calls @ calls')))"


definition example_exhausted :: mempool where
  "example_exhausted =
     example_pool
       \<lparr> free_list := 0, free_blocks := 0,
         stats := \<lparr> mempool_stats.total_blocks = 4, used_blocks = 4,
                    mempool_stats.free_blocks = 0, peak_usage = 4,
                    alloc_count = 4, free_count = 0, mempool_stats.block_size = 8 \<rparr>,
         bitmap_mem := (\<lambda>_. 0)(0 := 15) \<rparr>"

definition example_hooked :: mempool where
  "example_hooked =
     example_pool\<lparr> sync := \<lparr> lock = 0x5000, unlock = 0x6000, user_ctx = 0x7000 \<rparr>,
                   sync_enabled := True \<rparr>"

definition example_unhooked :: mempool where
  "example_unhooked =
     example_pool\<lparr> sync := \<lparr> lock = 0x5000, unlock = 0, user_ctx = 0x7000 \<rparr>,
                   sync_enabled := False \<rparr>"

definition example_unhooked_1 :: mempool where
  "example_unhooked_1 =
     example_pool_1\<lparr> sync := \<lparr> lock = 0x5000, unlock = 0, user_ctx = 0x7000 \<rparr> \<rparr>"

text \<open>
  Pools with blocks of 4 GiB and more. \<open>big_pool\<close> is the pool after \<^verbatim>\<open>mempool_init\<close> on a
  region of 8589934616 bytes at \<open>0x2000\<close> with a block size of 4294967304 (\<open>2^32 + 8\<close>) and
  alignment 8: two blocks, at \<open>0x2008\<close> and at \<open>0x100002010\<close>, and a \<open>block_size\<close> field
  of 8. \<open>big_pool_1\<close> is that pool after one \<^verbatim>\<open>mempool_alloc\<close>, \<open>big_pool_2\<close> after two,
  \<open>big_pool_reset\<close> is \<open>big_pool\<close> after \<^verbatim>\<open>mempool_reset\<close>. \<open>zero_size_pool\<close> is the pool after \<^verbatim>\<open>mempool_init\<close> on a region of
  4294967304 bytes with a block size of 4294967296 (\<open>2^32\<close>): one block, and a
  \<open>block_size\<close> field of 0.
\<close>

definition big_mem :: "uintptr_t \<Rightarrow> uint8_t" where
  "big_mem = store_ptr (store_ptr (\<lambda>_. 0) 0x2008 0) 0x100002010 0x2008"

definition big_pool :: mempool where
  "big_pool =
     \<lparr> pool_buffer_start = 0x2000, blocks_start = 0x2008, free_list = 0x100002010,
       bitmap = 0x2000, bitmap_bytes = 1, block_size = 8, total_blocks = 2,
       free_blocks = 2, alignment = 8,
       stats = \<lparr> mempool_stats.total_blocks = 2, used_blocks = 0,
                 mempool_stats.free_blocks = 2, peak_usage = 0,
                 alloc_count = 0, free_count = 0, mempool_stats.block_size = 8 \<rparr>,
       sync = \<lparr> lock = 0, unlock = 0, user_ctx = 0 \<rparr>,
       sync_enabled = False, initialized = True,
       bitmap_mem = (\<lambda>_. 0),
       block_mem = big_mem \<rparr>"

definition big_pool_1 :: mempool where
  "big_pool_1 =
     big_pool
       \<lparr> free_list := 0x2008, free_blocks := 1,
         stats := \<lparr> mempool_stats.total_blocks = 2, used_blocks = 1,
                    mempool_stats.free_blocks = 1, peak_usage = 1,
                    alloc_count = 1, free_count = 0, mempool_stats.block_size = 8 \<rparr> \<rparr>"

definition big_pool_2 :: mempool where
  "big_pool_2 =
     big_pool
       \<lparr> free_list := 0, free_blocks := 0,
         stats := \<lparr> mempool_stats.total_blocks = 2, used_blocks = 2,
                    mempool_stats.free_blocks = 0, peak_usage = 2,
                    alloc_count = 2, free_count = 0, mempool_stats.block_size = 8 \<rparr>,
         bitmap_mem := (\<lambda>_. 0)(0 := 1) \<rparr>"

definition big_pool_reset :: mempool where
  "big_pool_reset =
     big_pool\<lparr> free_list := 0x2010,
                block_mem := store_ptr (store_ptr big_mem 0x2008 0) 0x2010 0x2008 \<rparr>"

definition zero_size_pool :: mempool where
  "zero_size_pool =
     \<lparr> pool_buffer_start = 0x2000, blocks_start = 0x2008, free_list = 0x2008,
       bitmap = 0x2000, bitmap_bytes = 1, block_size = 0, total_blocks = 1,
       free_blocks = 1, alignment = 8,
       stats = \<lparr> mempool_stats.total_blocks = 1, used_blocks = 0,
                 mempool_stats.free_blocks = 1, peak_usage = 0,
                 alloc_count = 0, free_count = 0, mempool_stats.block_size = 0 \<rparr>,
       sync = \<lparr> lock = 0, unlock = 0, user_ctx = 0 \<rparr>,
       sync_enabled = False, initialized = True,
       bitmap_mem = (\<lambda>_. 0),
       block_mem = store_ptr (\<lambda>_. 0) 0x2008 0 \<rparr>"

text \<open>
  A pool whose \<open>block_size\<close> field is below the size of a link: \<open>narrow_pool\<close> is the pool
  after \<^verbatim>\<open>mempool_init\<close> on a region of 12884901892 bytes at \<open>0x2000\<close> with a block size of
  4294967297 (\<open>2^32 + 1\<close>) and alignment 1: three blocks, at \<open>0x2001\<close>, \<open>0x100002002\<close> and
  \<open>0x200002003\<close>, and a \<open>block_size\<close> field of 1. \<open>narrow_pool_reset\<close> is that pool after
  \<^verbatim>\<open>mempool_reset\<close>, which stores its three links at \<open>0x2001\<close>, \<open>0x2002\<close> and \<open>0x2003\<close>.
\<close>

definition narrow_mem :: "uintptr_t \<Rightarrow> uint8_t" where
  "narrow_mem =
     store_ptr (store_ptr (store_ptr (\<lambda>_. 0) 0x2001 0) 0x100002002 0x2001)
       0x200002003 0x100002002"

definition narrow_pool :: mempool where
  "narrow_pool =
     \<lparr> pool_buffer_start = 0x2000, blocks_start = 0x2001, free_list = 0x200002003,
       bitmap = 0x2000, bitmap_bytes = 1, block_size = 1, total_blocks = 3,
       free_blocks = 3, alignment = 1,
       stats = \<lparr> mempool_stats.total_blocks = 3, used_blocks = 0,
                 mempool_stats.free_blocks = 3, peak_usage = 0,
                 alloc_count = 0, free_count = 0, mempool_stats.block_size = 1 \<rparr>,
       sync = \<lparr> lock = 0, unlock = 0, user_ctx = 0 \<rparr>,
       sync_enabled = False, initialized = True,
       bitmap_mem = (\<lambda>_. 0),
       block_mem = narrow_mem \<rparr>"

definition narrow_reset_mem :: "uintptr_t \<Rightarrow> uint8_t" where
  "narrow_reset_mem =
     store_ptr (store_ptr (store_ptr narrow_mem 0x2001 0) 0x2002 0x2001) 0x2003 0x2002"

definition narrow_pool_reset :: mempool where
  "narrow_pool_reset = narrow_pool\<lparr> free_list := 0x2003, block_mem := narrow_reset_mem \<rparr>"

text \<open>
  The free list as a list of addresses: \<open>list_from mem a xs\<close> says that following the
  links of \<open>mem\<close> from \<open>a\<close> visits exactly \<open>xs\<close> and then reaches \<^verbatim>\<open>NULL\<close>.
\<close>

fun list_from :: "(uintptr_t \<Rightarrow> uint8_t) \<Rightarrow> uintptr_t \<Rightarrow> uintptr_t list \<Rightarrow> bool" where
  "list_from mem a [] = (a = 0)"
| "list_from mem a (x # xs) = (a \<noteq> 0 \<and> a = x \<and> list_from mem (load_ptr mem x) xs)"

text \<open>
  Two addresses at least 8 bytes from each other, in both directions around the
  address space: the links stored at them share no byte.
\<close>

definition apart :: "uintptr_t \<Rightarrow> uintptr_t \<Rightarrow> bool" where
  "apart a b \<longleftrightarrow> 8 \<le> unat (b - a) \<and> 8 \<le> unat (a - b)"

text \<open>
  The address of block \<open>i\<close>, with the stride that \<^verbatim>\<open>mempool_free\<close>,
  \<^verbatim>\<open>mempool_block_index\<close> and \<^verbatim>\<open>mempool_reset\<close> use, the field \<open>block_size\<close>.
\<close>

definition block_addr :: "mempool \<Rightarrow> nat \<Rightarrow> uintptr_t" where
  "block_addr p i = blocks_start p + of_nat i * ucast (block_size p)"

text \<open>
  The blocks region does not start at \<^verbatim>\<open>NULL\<close>, does not wrap around the address space,
  and each block has room for a link.
\<close>

definition layout_ok :: "mempool \<Rightarrow> bool" where
  "layout_ok p \<longleftrightarrow>
     8 \<le> unat (block_size p) \<and> blocks_start p \<noteq> 0 \<and>
     unat (blocks_start p) + unat (total_blocks p) * unat (block_size p) \<le> 2 ^ 64"

text \<open>
  The invariant that relates the two views of the pool: bit \<open>i\<close> is set exactly if block
  \<open>i\<close> is not on the free list, the free list has \<open>free_blocks\<close> nodes, and no node occurs
  twice.
\<close>

definition free_list_matches_bitmap :: "mempool \<Rightarrow> bool" where
  "free_list_matches_bitmap p \<longleftrightarrow>
     (\<exists>xs. list_from (block_mem p) (free_list p) xs \<and>
           (\<forall>i < unat (total_blocks p). i \<in> marked p \<longleftrightarrow> block_addr p i \<notin> set xs) \<and>
           length xs = unat (free_blocks p) \<and> distinct xs)"

text \<open>
  The same invariant with the free blocks named by their indices \<open>js\<close>, in list order, the
  form in which the operations preserve it.
\<close>

definition pool_inv_with :: "mempool \<Rightarrow> nat list \<Rightarrow> bool" where
  "pool_inv_with p js \<longleftrightarrow>
     counts_inv p \<and> layout_ok p \<and> marked p \<subseteq> {..< unat (total_blocks p)} \<and>
     list_from (block_mem p) (free_list p) (map (block_addr p) js) \<and> distinct js \<and>
     set js = {..< unat (total_blocks p)} - marked p \<and>
     length js = unat (free_blocks p)"

text \<open>
  The pool after a successful \<^verbatim>\<open>mempool_alloc\<close> that computed the block index \<open>index\<close>: the
  head is popped, the counters are updated, and the bit is set if its byte lies in the
  bitmap.
\<close>

definition alloc_post :: "mempool \<Rightarrow> uint32_t \<Rightarrow> mempool" where
  "alloc_post p index =
     p\<lparr> free_list := load_ptr (block_mem p) (free_list p),
        free_blocks := free_blocks p - 1,
        stats := (stats p)
          \<lparr> alloc_count := alloc_count (stats p) + 1,
            used_blocks := total_blocks p - (free_blocks p - 1),
            mempool_stats.free_blocks := free_blocks p - 1,
            peak_usage := (if peak_usage (stats p) < total_blocks p - (free_blocks p - 1)
                           then total_blocks p - (free_blocks p - 1)
                           else peak_usage (stats p)) \<rparr>,
        bitmap_mem := (if index div 8 < bitmap_bytes p then
                         (bitmap_mem p)
                           (unat (index div 8) :=
                              bitmap_mem p (unat (index div 8)) OR bit_mask (index mod 8))
                       else bitmap_mem p) \<rparr>"

text \<open>
  The padding that the search loop of \<^verbatim>\<open>mempool_init\<close> puts after a bitmap that ends at
  offset \<open>bitmap_end\<close>, as the loop body computes it.
\<close>

definition bitmap_pad :: "size_t \<Rightarrow> size_t \<Rightarrow> size_t" where
  "bitmap_pad align bitmap_end =
     (if align > 1 then
        (let md = bitmap_end AND (align - 1)
         in if md \<noteq> 0 then align - md else 0)
      else 0)"

text \<open>
  The planner's constraint over the natural numbers, as the documentation states it: the
  block size rounded up to a multiple of the alignment, the padding that brings the end
  \<open>e\<close> of the bitmap up to a multiple of the alignment, the bytes that \<open>N\<close> blocks need,
  and whether \<open>N \<ge> 1\<close> blocks fit a region of \<open>sz\<close> bytes.
\<close>

definition spec_aligned_size :: "nat \<Rightarrow> nat \<Rightarrow> nat" where
  "spec_aligned_size bs a = ((bs + a - 1) div a) * a"

definition spec_pad :: "nat \<Rightarrow> nat \<Rightarrow> nat" where
  "spec_pad a e = (a - e mod a) mod a"

definition spec_needed :: "nat \<Rightarrow> nat \<Rightarrow> nat \<Rightarrow> nat" where
  "spec_needed A a N = (N + 7) div 8 + spec_pad a ((N + 7) div 8) + N * A"

definition spec_fits :: "nat \<Rightarrow> nat \<Rightarrow> nat \<Rightarrow> nat \<Rightarrow> bool" where
  "spec_fits A a sz N \<longleftrightarrow> 1 \<le> N \<and> spec_needed A a N \<le> sz"

text \<open>
  The arguments of \<^verbatim>\<open>mempool_init\<close> for which the aligned block size fits the 32-bit field
  \<open>block_size\<close>, the pool region is smaller than \<open>2 ^ 63\<close> bytes (\<^verbatim>\<open>PTRDIFF_MAX\<close>) and lies
  in the address space.
\<close>


definition block_size_fits :: "uintptr_t \<Rightarrow> size_t \<Rightarrow> size_t \<Rightarrow> size_t \<Rightarrow> bool" where
  "block_size_fits pool_buffer pool_buffer_size block_sz align \<longleftrightarrow>
     unat (align_up block_sz align) < 2 ^ 32 \<and> unat pool_buffer_size < 2 ^ 63 \<and>
     unat pool_buffer + unat pool_buffer_size \<le> 2 ^ 64"

section \<open>The bitmap as a set of indices\<close>

lemma bit_bit_mask: "bit (bit_mask k) j \<longleftrightarrow> j = unat k \<and> j < 8"
  by (auto simp: bit_mask_def bit_simps)

lemma finite_marked_in: "finite (marked_in bm len)"
proof -
  have "marked_in bm len \<subseteq> {..< 8 * len}"
    by (auto simp: marked_in_def)
  then show ?thesis by (rule finite_subset) simp
qed

lemma marked_in_memset: "marked_in (memset_bitmap bm len) len = {}"
  by (auto simp: marked_in_def memset_bitmap_def)

lemma idx_div_mod: 
  fixes idx :: uint32_t
  shows "unat idx div 8 = unat (idx div 8)" "unat idx mod 8 = unat (idx mod 8)"
  by (simp_all add: unat_div unat_mod)

lemma marked_in_set:
  "marked_in (bm(unat (idx div 8) := bm (unat (idx div 8)) OR bit_mask (idx mod 8))) len
     \<subseteq> insert (unat idx) (marked_in bm len)"
proof
  fix i assume a: "i \<in> marked_in (bm(unat (idx div 8) := bm (unat (idx div 8)) OR bit_mask (idx mod 8))) len"
  show "i \<in> insert (unat idx) (marked_in bm len)"
  proof (cases "i div 8 = unat (idx div 8)")
    case False
    with a show ?thesis by (simp add: marked_in_def)
  next
    case True
    with a have "bit (bm (i div 8)) (i mod 8) \<or> i mod 8 = unat (idx mod 8)"
      by (auto simp: marked_in_def bit_or_iff bit_bit_mask)
    then show ?thesis
    proof
      assume "bit (bm (i div 8)) (i mod 8)"
      with a show ?thesis by (simp add: marked_in_def)
    next
      assume m: "i mod 8 = unat (idx mod 8)"
      have "i = 8 * (i div 8) + i mod 8" by simp
      also have "\<dots> = 8 * (unat idx div 8) + unat idx mod 8"
        using True m by (simp add: idx_div_mod)
      also have "\<dots> = unat idx" by simp
      finally show ?thesis by simp
    qed
  qed
qed

lemma marked_in_clear:
  assumes "unat (idx div 8) < len"
    and "(bm (unat (idx div 8)) AND bit_mask (idx mod 8)) \<noteq> 0"
  shows "unat idx \<in> marked_in bm len"
    and "marked_in (bm(unat (idx div 8) := bm (unat (idx div 8)) AND NOT (bit_mask (idx mod 8)))) len
           = marked_in bm len - {unat idx}"
proof -
  have lt8: "unat (idx mod 8) < 8"
    by (metis idx_div_mod(2) mod_less_divisor zero_less_numeral)
  from assms(2) obtain j where j: "bit (bm (unat (idx div 8))) j" "bit (bit_mask (idx mod 8)) j"
    by (auto simp: bit_eq_iff bit_and_iff)
  then have "j = unat (idx mod 8)" by (simp add: bit_bit_mask)
  with j have b: "bit (bm (unat (idx div 8))) (unat (idx mod 8))" by simp
  show "unat idx \<in> marked_in bm len"
    using assms(1) b by (simp add: marked_in_def idx_div_mod)
  show "marked_in (bm(unat (idx div 8) := bm (unat (idx div 8)) AND NOT (bit_mask (idx mod 8)))) len
           = marked_in bm len - {unat idx}"
  proof (rule set_eqI)
    fix i
    have eq: "i = unat idx \<longleftrightarrow> i div 8 = unat (idx div 8) \<and> i mod 8 = unat (idx mod 8)"
    proof
      assume "i = unat idx" then show "i div 8 = unat (idx div 8) \<and> i mod 8 = unat (idx mod 8)"
        by (simp add: idx_div_mod)
    next
      assume h: "i div 8 = unat (idx div 8) \<and> i mod 8 = unat (idx mod 8)"
      have "i = 8 * (i div 8) + i mod 8" by simp
      also have "\<dots> = 8 * (unat idx div 8) + unat idx mod 8"
        using h by (simp add: idx_div_mod)
      also have "\<dots> = unat idx" by simp
      finally show "i = unat idx" .
    qed
    show "i \<in> marked_in (bm(unat (idx div 8) := bm (unat (idx div 8)) AND NOT (bit_mask (idx mod 8)))) len
            \<longleftrightarrow> i \<in> marked_in bm len - {unat idx}"
      using lt8 by (auto simp: marked_in_def bit_and_iff bit_not_iff bit_bit_mask eq)
  qed
qed


section \<open>Words\<close>

lemma unat_ucast_down:
  fixes w :: size_t
  shows "unat (ucast w :: uint32_t) = unat w mod 4294967296"
  by (simp add: unsigned_ucast_eq take_bit_eq_mod)

lemma unat_ucast_up:
  fixes w :: uint32_t
  shows "unat (ucast w :: size_t) = unat w"
  by (simp add: unsigned_ucast_eq take_bit_eq_mod) (use unsigned_less[of w, where 'a=nat] in simp)

lemma word_pred_le:
  fixes a b :: uint32_t
  assumes "a \<le> b" "a \<noteq> 0"
  shows "a - 1 \<le> b" "unat (a - 1) = unat a - 1" "b - a \<le> b - (a - 1)"
proof -
  have a: "0 < unat a" using assms(2) by (simp add: unat_gt_0)
  show u: "unat (a - 1) = unat a - 1" using assms(2) by (simp add: unat_minus_one)
  have le: "unat a \<le> unat b" using assms(1) by (simp add: word_le_nat_alt)
  show "a - 1 \<le> b" using le a by (simp add: word_le_nat_alt u)
  have ub: "unat (b - a) = unat b - unat a" using assms(1) by (simp add: unat_sub)
  have "a - 1 \<le> b" using le a by (simp add: word_le_nat_alt u)
  then have ub1: "unat (b - (a - 1)) = unat b - unat (a - 1)" by (simp add: unat_sub)
  show "b - a \<le> b - (a - 1)" using le a by (simp add: word_le_nat_alt ub ub1 u)
qed

lemma word_succ_le:
  fixes a b :: uint32_t
  assumes "a < b"
  shows "a + 1 \<le> b" "unat (a + 1) = unat a + 1" "b - (a + 1) \<le> b - a"
proof -
  have lt: "unat a < unat b" using assms by (simp add: word_less_nat_alt)
  have "unat b < 2 ^ 32" using unsigned_less[of b, where 'a=nat] by simp
  with lt show u: "unat (a + 1) = unat a + 1" by (simp add: unat_word_ariths)
  show le: "a + 1 \<le> b" using lt by (simp add: word_le_nat_alt u)
  have ub: "unat (b - a) = unat b - unat a" using assms by (simp add: unat_sub)
  have ub1: "unat (b - (a + 1)) = unat b - unat (a + 1)" using le by (simp add: unat_sub)
  show "b - (a + 1) \<le> b - a" by (simp add: word_le_nat_alt ub ub1 u)
qed

lemma below_wrapped_sum:
  fixes s t b M :: nat
  assumes "s < M" "t < M" "s \<le> b" "b < (s + t) mod M"
  shows "b < s + t"
proof (cases "s + t < M")
  case True
  with assms(4) show ?thesis by simp
next
  case False
  then have "(s + t) mod M = (s + t - M) mod M" by (simp add: le_mod_geq)
  also have "\<dots> = s + t - M" using assms(1,2) by simp
  finally have "(s + t) mod M < s" using assms(2) False by simp
  with assms(3,4) show ?thesis by simp
qed


section \<open>Loads and stores of links\<close>

lemma byte_bits:
  fixes v :: uintptr_t
  shows "bit (push_bit k (ucast (ucast (drop_bit k v) :: uint8_t) :: uintptr_t)) n
           \<longleftrightarrow> k \<le> n \<and> n < k + 8 \<and> bit v n"
  by (auto simp: bit_simps dest: bit_imp_le_length)

lemma byte_bits_0:
  fixes v :: uintptr_t
  shows "bit (ucast (ucast v :: uint8_t) :: uintptr_t) n \<longleftrightarrow> n < 8 \<and> bit v n"
  by (auto simp: bit_simps)

lemma store_ptr_bytes:
  "store_ptr mem a v a = ucast v"
  "store_ptr mem a v (a + 1) = ucast (drop_bit 8 v)"
  "store_ptr mem a v (a + 2) = ucast (drop_bit 16 v)"
  "store_ptr mem a v (a + 3) = ucast (drop_bit 24 v)"
  "store_ptr mem a v (a + 4) = ucast (drop_bit 32 v)"
  "store_ptr mem a v (a + 5) = ucast (drop_bit 40 v)"
  "store_ptr mem a v (a + 6) = ucast (drop_bit 48 v)"
  "store_ptr mem a v (a + 7) = ucast (drop_bit 56 v)"
  by (simp_all add: store_ptr_def)

lemma load_store_same: "load_ptr (store_ptr mem a v) a = v"
proof (rule bit_eqI)
  fix n assume "possible_bit TYPE(uintptr_t) n"
  then have n: "n < 64" by (simp add: possible_bit_word)
  have "bit (load_ptr (store_ptr mem a v) a) n \<longleftrightarrow>
          (n < 8 \<and> bit v n) \<or> (8 \<le> n \<and> n < 16 \<and> bit v n) \<or> (16 \<le> n \<and> n < 24 \<and> bit v n)
          \<or> (24 \<le> n \<and> n < 32 \<and> bit v n) \<or> (32 \<le> n \<and> n < 40 \<and> bit v n)
          \<or> (40 \<le> n \<and> n < 48 \<and> bit v n) \<or> (48 \<le> n \<and> n < 56 \<and> bit v n)
          \<or> (56 \<le> n \<and> n < 64 \<and> bit v n)"
    by (simp only: load_ptr_def store_ptr_bytes bit_or_iff byte_bits byte_bits_0) simp
  also have "\<dots> \<longleftrightarrow> bit v n" using n by auto
  finally show "bit (load_ptr (store_ptr mem a v) a) n = bit v n" .
qed

lemma store_ptr_far:
  assumes "apart a b" and "i < 8"
  shows "store_ptr mem a v (b + of_nat i) = mem (b + of_nat i)"
proof -
  from assms(1) have d: "8 \<le> unat (b - a)" "8 \<le> unat (a - b)" by (simp_all add: apart_def)
  have ba: "b \<noteq> a" using d by auto
  have "unat (a - b) = unat a + 2 ^ 64 - unat b \<or> unat (a - b) = unat a - unat b"
    by (simp add: unat_sub_if_size word_size)
  have s: "unat (b - a) + unat (a - b) = 2 ^ 64"
    using ba unat_sub_if_size[of b a] unat_sub_if_size[of a b]
      unsigned_less[of a, where 'a=nat] unsigned_less[of b, where 'a=nat]
    by (auto simp: word_size word_unat_eq_iff split: if_splits)
  have ui: "unat (of_nat i :: uintptr_t) = i" using assms(2) by (simp add: unat_of_nat)
  have "unat ((b - a) + of_nat i) = unat (b - a) + i"
    using d s assms(2) by (simp add: unat_add_lem[THEN iffD1] ui)
  then have "8 \<le> unat (b + of_nat i - a)" using d by (simp add: algebra_simps)
  then have "\<not> b + of_nat i - a < 8" by (simp add: word_less_nat_alt)
  then show ?thesis by (simp add: store_ptr_def)
qed

lemma load_store_far:
  assumes "apart a b"
  shows "load_ptr (store_ptr mem a v) b = load_ptr mem b"
  using store_ptr_far[OF assms, of 0] store_ptr_far[OF assms, of 1] store_ptr_far[OF assms, of 2]
    store_ptr_far[OF assms, of 3] store_ptr_far[OF assms, of 4] store_ptr_far[OF assms, of 5]
    store_ptr_far[OF assms, of 6] store_ptr_far[OF assms, of 7]
  by (simp add: load_ptr_def)

lemma load_byte_write:
  assumes "\<forall>i < 8. b + of_nat i \<noteq> x"
  shows "load_ptr (mem(x := v)) b = load_ptr mem b"
  using assms[rule_format, of 0] assms[rule_format, of 1] assms[rule_format, of 2]
    assms[rule_format, of 3] assms[rule_format, of 4] assms[rule_format, of 5]
    assms[rule_format, of 6] assms[rule_format, of 7]
  by (simp add: load_ptr_def)

lemma apart_sym: "apart a b \<Longrightarrow> apart b a"
  by (simp add: apart_def)


lemmas load_simps = load_store_same load_store_far apart_def

section \<open>The counters are consistent in every reachable pool\<close>

lemma plan_loop_found:
  "plan_loop pbs absz al n b0 o0 = (m, bb, bo, True) \<Longrightarrow> 0 < m \<and> bb = (m + 7) div 8"
proof (induction pbs absz al n b0 o0 rule: plan_loop.induct)
  case (1 pbs absz al n b0 o0)
  show ?case
  proof (cases "0 < n")
    case False
    with "1.prems" show ?thesis by (simp add: plan_loop.simps)
  next
    case True
    show ?thesis
      using "1.prems" "1.IH" True
      by (subst (asm) plan_loop.simps) (auto simp: Let_def split: if_splits)
  qed
qed

lemma counts_invD:
  assumes "counts_inv p"
  shows "initialized p"
     "mempool_stats.total_blocks (stats p) = total_blocks p"
     "used_blocks (stats p) = total_blocks p - free_blocks p"
     "mempool_stats.free_blocks (stats p) = free_blocks p"
     "free_blocks p \<le> total_blocks p"
     "used_blocks (stats p) \<le> peak_usage (stats p)"
     "alloc_count (stats p) - free_count (stats p) = used_blocks (stats p)"
     "card (marked p) + unat (free_blocks p) \<le> unat (total_blocks p)"
     "unat (bitmap_bytes p) = (unat (total_blocks p) + 7) div 8"
  using assms unfolding counts_inv_def by blast+

lemma init_counts_inv:
  assumes "mempool_init sb sbs pb pbs bs al po old = Returned MEMPOOL_OK (Some p) out calls"
  shows "counts_inv p"
proof -
  from assms obtain n bb bo where
    pl: "plan_loop pbs (align_up bs al) al (pbs div align_up bs al) 0 0 = (n, bb, bo, True)"
    and n: "\<not> n > UINT32_MAX" "\<not> bb > UINT32_MAX"
    and p: "total_blocks p = ucast n" "free_blocks p = ucast n" "bitmap_bytes p = ucast bb"
       "stats p = \<lparr> mempool_stats.total_blocks = ucast n, used_blocks = 0,
                   mempool_stats.free_blocks = ucast n, peak_usage = 0,
                   alloc_count = 0, free_count = 0,
                   mempool_stats.block_size = ucast (align_up bs al) \<rparr>"
       "initialized p" 
       "bitmap_mem p = memset_bitmap (bitmap_mem (memset_pool old)) (unat bb)"
    by (auto simp: mempool_init_def Let_def split: if_splits prod.splits)
  from plan_loop_found[OF pl] have bb: "bb = (n + 7) div 8" by simp
  have un: "unat n \<le> 4294967295" using n(1) by (simp add: UINT32_MAX_def word_le_nat_alt not_less)
  have ubb: "unat bb = (unat n + 7) div 8"
    using un by (simp add: bb unat_div unat_word_ariths)
  have u1: "unat (ucast n :: uint32_t) = unat n"
    using un by (simp add: unat_ucast_down)
  have u2: "unat (ucast bb :: uint32_t) = unat bb"
    using un ubb by (simp add: unat_ucast_down)
  show ?thesis
    unfolding counts_inv_def marked_def
    using p by (simp add: u1 u2 ubb[symmetric] marked_in_memset)
qed

lemma alloc_counts_inv:
  assumes inv: "counts_inv p"
    and al: "mempool_alloc (Some p) b = Returned e (Some p') out calls"
  shows "counts_inv p'"
proof (cases "e = MEMPOOL_OK")
  case False
  with al have "p' = p"
    by (auto simp: mempool_alloc_def Let_def split: if_splits option.splits)
  with inv show ?thesis by simp
next
  case True
  define index where "index = the (mempool_block_index p (free_list p))"
  from True al have
    nz: "free_blocks p \<noteq> 0"
    and f: "total_blocks p' = total_blocks p" "free_blocks p' = free_blocks p - 1"
       "bitmap_bytes p' = bitmap_bytes p" "initialized p' = initialized p"
    and s: "mempool_stats.total_blocks (stats p') = mempool_stats.total_blocks (stats p)"
       "used_blocks (stats p') = total_blocks p - (free_blocks p - 1)"
       "mempool_stats.free_blocks (stats p') = free_blocks p - 1"
       "alloc_count (stats p') = alloc_count (stats p) + 1"
       "free_count (stats p') = free_count (stats p)"
       "peak_usage (stats p') = (if total_blocks p - (free_blocks p - 1) > peak_usage (stats p)
           then total_blocks p - (free_blocks p - 1) else peak_usage (stats p))"
    and bm: "bitmap_mem p' = (if index div 8 < bitmap_bytes p then
        (bitmap_mem p)(unat (index div 8) := bitmap_mem p (unat (index div 8)) OR bit_mask (index mod 8))
        else bitmap_mem p)"
    by (auto simp: index_def mempool_alloc_def mempool_block_index_def Let_def
          split: if_splits option.splits)
  have i: "initialized p"
     "mempool_stats.total_blocks (stats p) = total_blocks p"
     "used_blocks (stats p) = total_blocks p - free_blocks p"
     "free_blocks p \<le> total_blocks p"
     "used_blocks (stats p) \<le> peak_usage (stats p)"
     "alloc_count (stats p) - free_count (stats p) = used_blocks (stats p)"
     "card (marked p) + unat (free_blocks p) \<le> unat (total_blocks p)"
     "unat (bitmap_bytes p) = (unat (total_blocks p) + 7) div 8"
    using inv unfolding counts_inv_def by blast+
  note w = word_pred_le[OF i(4) nz]
  have sub: "marked p' \<subseteq> insert (unat index) (marked p)"
    using bm marked_in_set[of "bitmap_mem p" index "unat (bitmap_bytes p)"]
    by (auto simp: marked_def f split: if_splits)
  have "card (marked p') \<le> card (insert (unat index) (marked p))"
    by (rule card_mono) (simp_all add: marked_def finite_marked_in sub[unfolded marked_def])
  also have "\<dots> \<le> card (marked p) + 1"
    by (simp add: card_insert_if marked_def finite_marked_in)
  finally have c: "card (marked p') \<le> card (marked p) + 1" .
  have pos: "0 < unat (free_blocks p)" using nz by (simp add: unat_gt_0)
  have cnt: "card (marked p') + unat (free_blocks p') \<le> unat (total_blocks p')"
    using c i(7) pos by (simp add: f w(2))
  have ac: "alloc_count (stats p') - free_count (stats p') = used_blocks (stats p')"
    using i(6) by (simp add: s i(3))
  have pk: "used_blocks (stats p') \<le> peak_usage (stats p')"
    by (simp add: s not_less)
  show ?thesis
    unfolding counts_inv_def
    using i(1,2,8) w(1) cnt ac pk by (simp add: f s)
qed

lemma free_counts_inv:
  assumes inv: "counts_inv p"
    and fr: "mempool_free (Some p) blk = Returned e (Some p') out calls"
  shows "counts_inv p'"
proof (cases "e = MEMPOOL_OK")
  case False
  with fr have "p' = p"
    by (auto simp: mempool_free_def Let_def split: if_splits option.splits)
  with inv show ?thesis by simp
next
  case True
  define index where "index = the (mempool_block_index p blk)"
  from True fr have
    bi: "index div 8 < bitmap_bytes p"
       "(bitmap_mem p (unat (index div 8)) AND bit_mask (index mod 8)) \<noteq> 0"
    and f: "total_blocks p' = total_blocks p"
       "free_blocks p' = (if free_blocks p < total_blocks p then free_blocks p + 1 else free_blocks p)"
       "bitmap_bytes p' = bitmap_bytes p" "initialized p' = initialized p"
    and s: "mempool_stats.total_blocks (stats p') = mempool_stats.total_blocks (stats p)"
       "used_blocks (stats p') = total_blocks p - free_blocks p'"
       "mempool_stats.free_blocks (stats p') = free_blocks p'"
       "alloc_count (stats p') = alloc_count (stats p)"
       "free_count (stats p') = free_count (stats p) + 1"
       "peak_usage (stats p') = peak_usage (stats p)"
    and bm: "bitmap_mem p' = (bitmap_mem p)(unat (index div 8) :=
                bitmap_mem p (unat (index div 8)) AND NOT (bit_mask (index mod 8)))"
    by (auto simp: index_def mempool_free_def mempool_block_index_def Let_def not_le
          split: if_splits option.splits)
  have i: "initialized p"
     "mempool_stats.total_blocks (stats p) = total_blocks p"
     "used_blocks (stats p) = total_blocks p - free_blocks p"
     "free_blocks p \<le> total_blocks p"
     "used_blocks (stats p) \<le> peak_usage (stats p)"
     "alloc_count (stats p) - free_count (stats p) = used_blocks (stats p)"
     "card (marked p) + unat (free_blocks p) \<le> unat (total_blocks p)"
     "unat (bitmap_bytes p) = (unat (total_blocks p) + 7) div 8"
    using inv unfolding counts_inv_def by blast+
  have lt: "unat (index div 8) < unat (bitmap_bytes p)"
    using bi(1) by (simp add: word_less_nat_alt)
  note mc = marked_in_clear[of index "unat (bitmap_bytes p)" "bitmap_mem p", OF lt bi(2)]
  have mem: "unat index \<in> marked p" using mc(1) by (simp add: marked_def)
  have m': "marked p' = marked p - {unat index}"
    using mc(2) by (simp add: marked_def bm f)
  have fin: "finite (marked p)" by (simp add: marked_def finite_marked_in)
  have cpos: "0 < card (marked p)" using mem fin by (auto simp: card_gt_0_iff)
  have c': "card (marked p') = card (marked p) - 1"
    using mem fin by (simp add: m')
  have fl: "free_blocks p < total_blocks p"
    using cpos i(7) by (simp add: word_less_nat_alt)
  note w = word_succ_le[OF fl]
  have fb': "free_blocks p' = free_blocks p + 1" using fl by (simp add: f)
  have cnt: "card (marked p') + unat (free_blocks p') \<le> unat (total_blocks p')"
    using cpos i(7) by (simp add: c' fb' w(2) f)
  have ac: "alloc_count (stats p') - free_count (stats p') = used_blocks (stats p')"
    using i(6) by (simp add: s i(3) fb')
  have pk: "used_blocks (stats p') \<le> peak_usage (stats p')"
    using w(3) i(5) by (simp add: s fb' i(3))
  show ?thesis
    unfolding counts_inv_def
    using i(1,2,8) w(1) cnt ac pk by (simp add: f(1,3,4) s fb')
qed

lemma reset_counts_inv:
  assumes inv: "counts_inv p"
    and rs: "mempool_reset (Some p) = Returned e (Some p') out calls"
  shows "counts_inv p'"
proof -
  have i: "initialized p" "unat (bitmap_bytes p) = (unat (total_blocks p) + 7) div 8"
    using inv unfolding counts_inv_def by blast+
  from rs i(1) have
    f: "total_blocks p' = total_blocks p" "free_blocks p' = total_blocks p"
       "bitmap_bytes p' = bitmap_bytes p" "initialized p'"
       "stats p' = \<lparr> mempool_stats.total_blocks = total_blocks p, used_blocks = 0,
                   mempool_stats.free_blocks = total_blocks p, peak_usage = 0,
                   alloc_count = 0, free_count = 0,
                   mempool_stats.block_size = block_size p \<rparr>"
       "bitmap_mem p' = memset_bitmap (bitmap_mem p) (unat (bitmap_bytes p))"
    by (auto simp: mempool_reset_def Let_def split: prod.splits)
  show ?thesis
    unfolding counts_inv_def marked_def
    using i(2) by (simp add: f marked_in_memset)
qed

lemma get_stats_counts_inv:
  assumes "counts_inv p"
    and "mempool_get_stats (Some p) so = Returned e (Some p') out calls"
  shows "counts_inv p'"
  using assms by (auto simp: mempool_get_stats_def split: if_splits)

lemma set_sync_counts_inv:
  assumes "counts_inv p"
    and "mempool_set_sync (Some p) l u c = Returned e (Some p') out calls"
  shows "counts_inv p'"
  using assms by (auto simp: mempool_set_sync_def counts_inv_def marked_def split: if_splits)

lemma write_counts_inv: "counts_inv p \<Longrightarrow> counts_inv (p\<lparr> block_mem := m \<rparr>)"
  unfolding counts_inv_def marked_def by auto

lemma step_counts_inv: "step p p' \<Longrightarrow> counts_inv p \<Longrightarrow> counts_inv p'"
proof (induction rule: step.induct)
  case (step_alloc p block e p' out calls)
  then show ?case by (blast intro: alloc_counts_inv)
next
  case (step_free p blk e p' out' calls)
  then show ?case by (blast intro: free_counts_inv)
next
  case (step_reset p e p' out' calls)
  then show ?case by (blast intro: reset_counts_inv)
next
  case (step_get_stats p stats_out e p' out'' calls)
  then show ?case by (blast intro: get_stats_counts_inv)
next
  case (step_set_sync p lock_fn unlock_fn ctx e p' out' calls)
  then show ?case by (blast intro: set_sync_counts_inv)
next
  case (step_write p a v)
  then show ?case by (simp add: write_counts_inv)
qed

lemma reachable_counts_inv: "reachable p \<Longrightarrow> counts_inv p"
  by (induction rule: reachable.induct) (blast intro: init_counts_inv step_counts_inv)+

section \<open>The example pool\<close>

lemma build_free_list_numeral:
  "build_free_list (numeral k) current prev_node stride mem =
     build_free_list (pred_numeral k) (current + stride) current stride
       (store_ptr mem current prev_node)"
  by (simp add: numeral_eq_Suc)

lemma plan_loop_example: "plan_loop 40 8 8 5 0 0 = (4, 1, 8, True)"
  by (simp add: plan_loop.simps Let_def)

lemma memset_pool_blank: "memset_pool blank = blank"
  by (simp add: memset_pool_def blank_def)

lemma memset_bitmap_zero: "memset_bitmap (\<lambda>_. 0) len = (\<lambda>_. 0)"
  by (auto simp: memset_bitmap_def)

lemma example_links:
  "load_ptr example_mem 0x2020 = 0x2018" "load_ptr example_mem 0x2018 = 0x2010"
  "load_ptr example_mem 0x2010 = 0x2008" "load_ptr example_mem 0x2008 = 0"
  by (simp_all add: example_mem_def load_simps)


lemma init_example:
  "mempool_init 0x1000 128 0x2000 40 8 8 True blank
     = Returned MEMPOOL_OK (Some example_pool) (Some 0x1000) []"
proof -
  have "bitmap_mem blank = (\<lambda>_. 0)" "block_mem blank = (\<lambda>_. 0)"
    by (simp_all add: blank_def)
  then show ?thesis
    by (simp add: mempool_init_def is_power_of_two_def align_up_def sizeof_mempool_def
        sizeof_free_node_t_def UINT32_MAX_def plan_loop_example Let_def memset_pool_blank
        memset_bitmap_zero example_pool_def example_mem_def build_free_list_numeral)
qed

lemma alloc_example:
  "mempool_alloc (Some example_pool) True
     = Returned MEMPOOL_OK (Some example_pool_1) (Some 0x2020) []"
  by (simp add: mempool_alloc_def mempool_block_index_def bit_mask_def Let_def
        mempool_internal_lock_def mempool_internal_unlock_def example_pool_def
        example_pool_1_def example_links)

lemma reachable_example: "reachable example_pool_1"
  by (rule reach_step[OF reach_init[OF init_example] step_alloc[OF alloc_example]])


section \<open>The claims\<close>

text \<open>
  Claim C1. In every reachable pool, that is after \<^verbatim>\<open>mempool_init\<close> and after every
  public operation that follows it (alloc, free, reset, get_stats, set_sync), the
  statistics satisfy \<open>used_blocks + free_blocks = total_blocks\<close>,
  \<open>peak_usage \<ge> used_blocks\<close> and \<open>alloc_count - free_count = used_blocks\<close>, in unsigned
  32-bit arithmetic.
\<close>

theorem stats_consistent:
  assumes "reachable p"
  shows "used_blocks (stats p) + mempool_stats.free_blocks (stats p)
           = mempool_stats.total_blocks (stats p)
         \<and> used_blocks (stats p) \<le> peak_usage (stats p)
         \<and> alloc_count (stats p) - free_count (stats p) = used_blocks (stats p)"
proof -
  note i = counts_invD[OF reachable_counts_inv[OF assms]]
  show ?thesis using i(6,7) by (simp add: i(2,3,4))
qed


theorem stats_consistent_witness:
  "reachable example_pool_1 \<and>
   used_blocks (stats example_pool_1) + mempool_stats.free_blocks (stats example_pool_1)
     = mempool_stats.total_blocks (stats example_pool_1) \<and>
   used_blocks (stats example_pool_1) \<le> peak_usage (stats example_pool_1) \<and>
   alloc_count (stats example_pool_1) - free_count (stats example_pool_1)
     = used_blocks (stats example_pool_1)"
  using stats_consistent[OF reachable_example] reachable_example by simp


section \<open>The index of a checked pointer\<close>

lemma range_check_offset:
  assumes "range_check p blk"
  shows "unat (blk - blocks_start p) < unat (total_blocks p) * unat (block_size p)"
proof -
  let ?s = "blocks_start p"
  let ?T = "unat (total_blocks p)" and ?B = "unat (block_size p)"
  let ?prod = "(ucast (total_blocks p) * ucast (block_size p) :: uintptr_t)"
  have T: "?T < 2 ^ 32" using unsigned_less[of "total_blocks p", where 'a=nat] by simp
  have B: "?B < 2 ^ 32" using unsigned_less[of "block_size p", where 'a=nat] by simp
  have "?T * ?B < 2 ^ 32 * 2 ^ 32"
    using T B by (meson mult_strict_mono' zero_le)
  then have TB: "?T * ?B < 2 ^ 64" by simp
  have up: "unat ?prod = ?T * ?B"
    using TB by (simp add: unat_word_ariths unat_ucast_up)
  from assms have le: "?s \<le> blk" and lt: "blk < ?s + ?prod"
    by (simp_all add: range_check_def blocks_end_addr_def not_less not_le)
  have ule: "unat ?s \<le> unat blk" using le by (simp add: word_le_nat_alt)
  have ult: "unat blk < unat (?s + ?prod)" using lt by (simp add: word_less_nat_alt)
  have s64: "unat ?s < 2 ^ 64" using unsigned_less[of ?s, where 'a=nat] by simp
  have "unat (?s + ?prod) = (unat ?s + unat ?prod) mod 2 ^ 64"
    by (simp add: unat_word_ariths(1))
  then have "unat (?s + ?prod) = (unat ?s + ?T * ?B) mod 2 ^ 64"
    by (simp only: up)
  with ult have "unat blk < (unat ?s + ?T * ?B) mod 2 ^ 64" by simp
  with ule TB s64 have "unat blk < unat ?s + ?T * ?B"
    by (intro below_wrapped_sum[where M = "2 ^ 64"]) simp_all
  moreover have "unat (blk - ?s) = unat blk - unat ?s"
    using le by (simp add: unat_sub)
  ultimately show ?thesis using ule by simp
qed

lemma checked_index:
  assumes bb: "unat (bitmap_bytes p) = (unat (total_blocks p) + 7) div 8"
    and rc: "range_check p blk"
  shows "block_size p \<noteq> 0"
    and "\<exists>index. mempool_block_index p blk = Some index \<and> index div 8 < bitmap_bytes p
           \<and> unat index = unat (blk - blocks_start p) div unat (block_size p)
           \<and> unat index < unat (total_blocks p)"
proof -
  let ?off = "blk - blocks_start p"
  let ?T = "unat (total_blocks p)" and ?B = "unat (block_size p)"
  have off: "unat ?off < ?T * ?B" by (rule range_check_offset[OF rc])
  then have Bpos: "0 < ?B" by (cases "?B = 0") simp_all
  then show nz: "block_size p \<noteq> 0" by (simp add: unat_gt_0)
  have T: "?T < 2 ^ 32" using unsigned_less[of "total_blocks p", where 'a=nat] by simp
  have q: "unat ?off div ?B < ?T"
    using off Bpos by (simp add: less_mult_imp_div_less)
  have "unat (?off div ucast (block_size p)) = unat ?off div ?B"
    by (simp add: unat_div unat_ucast_up)
  then have ui: "unat (ucast (?off div ucast (block_size p)) :: uint32_t) = unat ?off div ?B"
    using q T by (simp add: unat_ucast_down)
  have "unat ((ucast (?off div ucast (block_size p)) :: uint32_t) div 8) < unat (bitmap_bytes p)"
    using q by (simp add: unat_div ui bb)
  then have "(ucast (?off div ucast (block_size p)) :: uint32_t) div 8 < bitmap_bytes p"
    by (simp add: word_less_nat_alt)
  then show "\<exists>index. mempool_block_index p blk = Some index \<and> index div 8 < bitmap_bytes p
           \<and> unat index = unat (blk - blocks_start p) div unat (block_size p)
           \<and> unat index < unat (total_blocks p)"
    using nz ui q by (simp add: mempool_block_index_def Let_def)
qed


text \<open>
  Claim C9. In \<^verbatim>\<open>mempool_free\<close> on a reachable pool, for every pointer that passes the
  range check and the block-boundary check, the byte index computed from it is
  strictly less than \<open>bitmap_bytes\<close>: the index computation is defined, and the call
  does not return \<^verbatim>\<open>MEMPOOL_ERR_INVALID_BLOCK\<close>, so that the branch with that error in
  the critical section is never taken.
\<close>

theorem free_index_within_bitmap:
  assumes "reachable p" and "range_check p blk" and "boundary_check p blk"
  shows "(\<exists>index. mempool_block_index p blk = Some index \<and> index div 8 < bitmap_bytes p)
         \<and> mempool_free (Some p) blk \<noteq> Undefined
         \<and> (\<forall>q out calls.
               mempool_free (Some p) blk \<noteq> Returned MEMPOOL_ERR_INVALID_BLOCK q out calls)"
proof -
  note i = counts_invD[OF reachable_counts_inv[OF assms(1)]]
  note c = checked_index[OF i(9) assms(2)]
  from c(2) obtain index where
    ix: "mempool_block_index p blk = Some index" "index div 8 < bitmap_bytes p"
    by blast
  have nle: "\<not> bitmap_bytes p \<le> index div 8" using ix(2) by (simp add: not_le)
  show ?thesis
    using ix nle c(1) assms(2,3)
    by (auto simp: mempool_free_def Let_def)
qed


theorem free_index_within_bitmap_witness:
  "reachable example_pool_1 \<and> range_check example_pool_1 0x2020 \<and>
   boundary_check example_pool_1 0x2020 \<and>
   (\<exists>index. mempool_block_index example_pool_1 0x2020 = Some index
      \<and> index div 8 < bitmap_bytes example_pool_1) \<and>
   mempool_free (Some example_pool_1) 0x2020 \<noteq> Undefined \<and>
   (\<forall>q out calls. mempool_free (Some example_pool_1) 0x2020
      \<noteq> Returned MEMPOOL_ERR_INVALID_BLOCK q out calls)"
proof -
  have r: "range_check example_pool_1 0x2020"
    by (simp add: range_check_def blocks_end_addr_def example_pool_1_def example_pool_def)
  have b: "boundary_check example_pool_1 0x2020"
    by (simp add: boundary_check_def example_pool_1_def example_pool_def)
  from free_index_within_bitmap[OF reachable_example r b] reachable_example r b
  show ?thesis by blast
qed

section \<open>Errors leave the output untouched\<close>

text \<open>
  Claim C10. A call of \<^verbatim>\<open>mempool_alloc\<close> that returns an error returns
  \<^verbatim>\<open>MEMPOOL_ERR_NULL_PTR\<close>, \<^verbatim>\<open>MEMPOOL_ERR_NOT_INITIALIZED\<close> or \<^verbatim>\<open>MEMPOOL_ERR_OUT_OF_MEMORY\<close>
  and stores nothing through \<^verbatim>\<open>block\<close>; a call of \<^verbatim>\<open>mempool_get_stats\<close> that stores
  through \<^verbatim>\<open>stats\<close> returns \<^verbatim>\<open>MEMPOOL_OK\<close>. This holds for every pool object and every
  argument, reachable or not.
\<close>

theorem errors_write_nothing:
  "(mempool_alloc pool block = Returned e q out calls \<longrightarrow> e \<noteq> MEMPOOL_OK \<longrightarrow>
      out = None \<and>
      e \<in> {MEMPOOL_ERR_NULL_PTR, MEMPOOL_ERR_NOT_INITIALIZED, MEMPOOL_ERR_OUT_OF_MEMORY})
   \<and> (mempool_get_stats pool' stats_out = Returned e' q' out' calls' \<longrightarrow> out' \<noteq> None \<longrightarrow>
      e' = MEMPOOL_OK)"
  by (auto simp: mempool_alloc_def mempool_get_stats_def Let_def
        split: option.splits if_splits)

theorem errors_write_nothing_witness:
  "mempool_alloc (Some blank) True = Returned MEMPOOL_ERR_NOT_INITIALIZED (Some blank) None []
   \<and> MEMPOOL_ERR_NOT_INITIALIZED \<noteq> MEMPOOL_OK
   \<and> mempool_get_stats (Some example_pool) True
        = Returned MEMPOOL_OK (Some example_pool) (Some (stats example_pool)) []
   \<and> Some (stats example_pool) \<noteq> None"
  using errors_write_nothing[of "Some blank" True MEMPOOL_ERR_NOT_INITIALIZED "Some blank" None "[]"
          "Some example_pool" True MEMPOOL_OK "Some example_pool" "Some (stats example_pool)" "[]"]
  by (simp add: mempool_alloc_def mempool_get_stats_def blank_def example_pool_def
        mempool_internal_lock_def mempool_internal_unlock_def)

section \<open>Exhaustion\<close>

lemma alloc_ok_free_blocks:
  assumes "mempool_alloc (Some p) b = Returned MEMPOOL_OK (Some p') out calls"
  shows "free_blocks p \<noteq> 0" "free_blocks p' = free_blocks p - 1" "total_blocks p' = total_blocks p"
  using assms
  by (auto simp: mempool_alloc_def Let_def split: if_splits option.splits)

lemma alloc_n_counts:
  "alloc_n k p = Some (q, bs) \<Longrightarrow> counts_inv p \<Longrightarrow>
     k \<le> unat (free_blocks p) \<and> unat (free_blocks q) = unat (free_blocks p) - k \<and>
     total_blocks q = total_blocks p \<and> counts_inv q \<and> length bs = k"
proof (induction k arbitrary: p bs)
  case 0
  then show ?case by simp
next
  case (Suc k)
  from Suc.prems(1) obtain p' b calls bs' where
    a: "mempool_alloc (Some p) True = Returned MEMPOOL_OK (Some p') (Some b) calls"
    and r: "alloc_n k p' = Some (q, bs')" and bs: "bs = b # bs'"
    by (auto split: outcome.splits mempool_error.splits option.splits)
  note f = alloc_ok_free_blocks[OF a]
  have inv': "counts_inv p'" by (rule alloc_counts_inv[OF Suc.prems(2) a])
  note ih = Suc.IH[OF r inv']
  have pos: "0 < unat (free_blocks p)" using f(1) by (simp add: unat_gt_0)
  have u: "unat (free_blocks p') = unat (free_blocks p) - 1"
    using f(1) by (simp add: f(2) unat_minus_one)
  show ?case using ih pos by (auto simp: u f(3) bs)
qed

text \<open>
  On an initialised pool whose free list is empty or whose \<open>free_blocks\<close> is 0,
  \<^verbatim>\<open>mempool_alloc\<close> returns \<^verbatim>\<open>MEMPOOL_ERR_OUT_OF_MEMORY\<close>, stores no block, and returns the
  pool object exactly as it was (free list, bitmap, statistics and all other fields).
  When \<open>total_blocks\<close> allocations in a row have succeeded on a reachable pool,
  \<open>free_blocks\<close> is 0 and the next call returns \<^verbatim>\<open>MEMPOOL_ERR_OUT_OF_MEMORY\<close> with the pool
  unchanged. Whether the bitmap records the blocks returned before is another matter:
  it does where the block size fits 32 bits, and it does not in general (see the
  sections on block sizes below).
\<close>

lemma exhausted_alloc_unchanged:
  "(initialized p \<longrightarrow> (free_list p = 0 \<or> free_blocks p = 0) \<longrightarrow>
      mempool_alloc (Some p) True =
        Returned MEMPOOL_ERR_OUT_OF_MEMORY (Some p) None
          (mempool_internal_lock p @ mempool_internal_unlock p))
   \<and> (reachable p0 \<longrightarrow> alloc_n (unat (total_blocks p0)) p0 = Some (q, bs) \<longrightarrow>
      free_blocks q = 0 \<and> length bs = unat (total_blocks p0) \<and>
      mempool_alloc (Some q) True =
        Returned MEMPOOL_ERR_OUT_OF_MEMORY (Some q) None
          (mempool_internal_lock q @ mempool_internal_unlock q))"
proof (intro conjI impI)
  assume "initialized p" "free_list p = 0 \<or> free_blocks p = 0"
  then show "mempool_alloc (Some p) True =
        Returned MEMPOOL_ERR_OUT_OF_MEMORY (Some p) None
          (mempool_internal_lock p @ mempool_internal_unlock p)"
    by (auto simp: mempool_alloc_def)
next
  assume r: "reachable p0" and a: "alloc_n (unat (total_blocks p0)) p0 = Some (q, bs)"
  note inv = reachable_counts_inv[OF r]
  note c = alloc_n_counts[OF a inv]
  have "unat (free_blocks p0) \<le> unat (total_blocks p0)"
    using counts_invD(5)[OF inv] by (simp add: word_le_nat_alt)
  with c have z: "unat (free_blocks q) = 0" by simp
  then show fq: "free_blocks q = 0" by (simp add: unat_eq_0)
  show "length bs = unat (total_blocks p0)" using c by simp
  have "initialized q" using c counts_invD(1) by blast
  then show "mempool_alloc (Some q) True =
        Returned MEMPOOL_ERR_OUT_OF_MEMORY (Some q) None
          (mempool_internal_lock q @ mempool_internal_unlock q)"
    using fq by (auto simp: mempool_alloc_def)
qed

lemma alloc_n_numeral:
  "alloc_n (numeral k) p =
     (case mempool_alloc (Some p) True of
        Returned MEMPOOL_OK (Some p') (Some b) calls \<Rightarrow>
          (case alloc_n (pred_numeral k) p' of
             Some (q, bs) \<Rightarrow> Some (q, b # bs)
           | None \<Rightarrow> None)
      | _ \<Rightarrow> None)"
  by (simp add: numeral_eq_Suc)

lemma alloc_n_example:
  "alloc_n 4 example_pool = Some (example_exhausted, [0x2020, 0x2018, 0x2010, 0x2008])"
  by (simp add: alloc_n_numeral mempool_alloc_def mempool_block_index_def bit_mask_def Let_def
        mempool_internal_lock_def mempool_internal_unlock_def example_pool_def
        example_exhausted_def example_links)

lemma exhausted_example:
  "initialized example_exhausted \<and> free_blocks example_exhausted = 0 \<and>
   mempool_alloc (Some example_exhausted) True =
     Returned MEMPOOL_ERR_OUT_OF_MEMORY (Some example_exhausted) None [] \<and>
   reachable example_pool \<and>
   alloc_n (unat (total_blocks example_pool)) example_pool =
     Some (example_exhausted, [0x2020, 0x2018, 0x2010, 0x2008])"
proof -
  have i: "initialized example_exhausted" "free_blocks example_exhausted = 0"
    by (simp_all add: example_exhausted_def example_pool_def)
  have r: "reachable example_pool" by (rule reach_init[OF init_example])
  have n: "alloc_n (unat (total_blocks example_pool)) example_pool =
     Some (example_exhausted, [0x2020, 0x2018, 0x2010, 0x2008])"
    using alloc_n_example by (simp add: example_pool_def)
  have h: "mempool_internal_lock example_exhausted @ mempool_internal_unlock example_exhausted = []"
    by (simp add: mempool_internal_lock_def mempool_internal_unlock_def example_exhausted_def
          example_pool_def)
  from exhausted_alloc_unchanged[where p = example_exhausted and ?p0.0 = example_pool
      and q = example_exhausted and bs = "[0x2020, 0x2018, 0x2010, 0x2008]"] i r n h
  show ?thesis by simp
qed

section \<open>Release and double release\<close>

lemma bit_mask_clear: "(w AND NOT (bit_mask k)) AND bit_mask k = 0"
  by (simp add: bit_eq_iff bit_and_iff bit_not_iff)

lemma free_cases_inv:
  assumes inv: "counts_inv p" and nn: "blk \<noteq> 0"
    and rc: "range_check p blk" and bc: "boundary_check p blk"
  shows "\<exists>index. mempool_block_index p blk = Some index \<and> index div 8 < bitmap_bytes p \<and>
     (if (bitmap_mem p (unat (index div 8)) AND bit_mask (index mod 8)) = 0 then
        mempool_free (Some p) blk =
          Returned MEMPOOL_ERR_DOUBLE_FREE (Some p) None
            (mempool_internal_lock p @ mempool_internal_unlock p)
      else
        mempool_free (Some p) blk =
          Returned MEMPOOL_OK (Some (free_post p blk index)) None
            (mempool_internal_lock p @ mempool_internal_unlock (free_post p blk index))
        \<and> free_blocks p < total_blocks p
        \<and> free_blocks (free_post p blk index) \<le> total_blocks p)"
proof -
  note i = counts_invD[OF inv]
  note c = checked_index[OF i(9) rc]
  from c(2) obtain index where
    ix: "mempool_block_index p blk = Some index" "index div 8 < bitmap_bytes p"
    by blast
  have nle: "\<not> bitmap_bytes p \<le> index div 8" using ix(2) by (simp add: not_le)
  show ?thesis
  proof (cases "(bitmap_mem p (unat (index div 8)) AND bit_mask (index mod 8)) = 0")
    case True
    then show ?thesis
      using ix nle c(1) rc bc nn i(1) by (simp add: mempool_free_def Let_def)
  next
    case False
    have lt: "unat (index div 8) < unat (bitmap_bytes p)"
      using ix(2) by (simp add: word_less_nat_alt)
    note mc = marked_in_clear[of index "unat (bitmap_bytes p)" "bitmap_mem p", OF lt False]
    have fin: "finite (marked p)" by (simp add: marked_def finite_marked_in)
    have "0 < card (marked p)" using mc(1) fin by (auto simp: card_gt_0_iff marked_def)
    then have fl: "free_blocks p < total_blocks p"
      using i(8) by (simp add: word_less_nat_alt)
    note w = word_succ_le[OF fl]
    have "mempool_free (Some p) blk =
          Returned MEMPOOL_OK (Some (free_post p blk index)) None
            (mempool_internal_lock p @ mempool_internal_unlock (free_post p blk index))"
      using ix nle c(1) rc bc nn i(1) False fl
      by (simp add: mempool_free_def Let_def free_post_def)
    then show ?thesis using False ix fl w(1) by (simp add: free_post_def)
  qed
qed


lemma free_ok_checks:
  assumes "mempool_free (Some p) blk = Returned MEMPOOL_OK q out calls"
  shows "blk \<noteq> 0" "range_check p blk" "boundary_check p blk"
  using assms
  by (auto simp: mempool_free_def Let_def split: if_splits option.splits)

lemma alloc_ok_free_count:
  assumes "mempool_alloc (Some p) b = Returned MEMPOOL_OK (Some p') out calls"
  shows "free_count (stats p') = free_count (stats p)"
  using assms
  by (auto simp: mempool_alloc_def Let_def split: if_splits option.splits)

lemma block_index_free_post:
  "mempool_block_index (free_post p blk i) a = mempool_block_index p a"
  by (simp add: mempool_block_index_def free_post_def)











section \<open>The hook\<close>

lemma run_op_disabled:
  assumes "\<not> sync_enabled p" and "run_op x p = Some (p', calls)"
  shows "calls = [] \<and> \<not> sync_enabled p' \<and> sync p' = sync p"
proof (cases x)
  case (Op_alloc block)
  with assms show ?thesis
    by (auto simp: mempool_alloc_def Let_def mempool_internal_lock_def
          mempool_internal_unlock_def split: if_splits option.splits)
next
  case (Op_free blk)
  with assms show ?thesis
    by (auto simp: mempool_free_def Let_def mempool_internal_lock_def
          mempool_internal_unlock_def split: if_splits option.splits)
next
  case Op_reset
  with assms show ?thesis
    by (auto simp: mempool_reset_def Let_def mempool_internal_lock_def
          mempool_internal_unlock_def split: if_splits option.splits prod.splits)
next
  case (Op_get_stats stats_out)
  with assms show ?thesis
    by (auto simp: mempool_get_stats_def Let_def mempool_internal_lock_def
          mempool_internal_unlock_def split: if_splits option.splits)
qed

lemma run_ops_disabled:
  "\<not> sync_enabled p \<Longrightarrow> run_ops xs p = Some (q, calls) \<Longrightarrow>
     calls = [] \<and> \<not> sync_enabled q \<and> sync q = sync p"
proof (induction xs arbitrary: p calls)
  case Nil
  then show ?case by simp
next
  case (Cons x xs)
  from Cons.prems(2) obtain p' c c' where
    a: "run_op x p = Some (p', c)" and b: "run_ops xs p' = Some (q, c')" and cs: "calls = c @ c'"
    by (auto split: option.splits)
  note d = run_op_disabled[OF Cons.prems(1) a]
  from d have ne: "\<not> sync_enabled p'" by simp
  from Cons.IH[OF ne b] d cs show ?case by simp
qed

text \<open>
  Claim C8, as amended. On an initialised pool, \<^verbatim>\<open>mempool_set_sync\<close> with a \<^verbatim>\<open>NULL\<close> lock
  callback or a \<^verbatim>\<open>NULL\<close> unlock callback returns \<^verbatim>\<open>MEMPOOL_OK\<close>, disables synchronisation
  and stores its three arguments in the hook record as they were passed: a \<^verbatim>\<open>NULL\<close>
  argument clears its field, the other argument stays in the record. No callback is
  called by any run of alloc, free, reset and get_stats that follows, and the record
  stays as it is.
\<close>

theorem set_sync_null_disables:
  "initialized p \<longrightarrow> (lock_fn = 0 \<or> unlock_fn = 0) \<longrightarrow>
     mempool_set_sync (Some p) lock_fn unlock_fn ctx =
       Returned MEMPOOL_OK
         (Some (p\<lparr> sync := \<lparr> lock = lock_fn, unlock = unlock_fn, user_ctx = ctx \<rparr>,
                   sync_enabled := False \<rparr>)) None []
     \<and> (\<forall>ops q calls.
           run_ops ops (p\<lparr> sync := \<lparr> lock = lock_fn, unlock = unlock_fn, user_ctx = ctx \<rparr>,
                          sync_enabled := False \<rparr>) = Some (q, calls)
           \<longrightarrow> calls = [] \<and> \<not> sync_enabled q \<and>
               sync q = \<lparr> lock = lock_fn, unlock = unlock_fn, user_ctx = ctx \<rparr>)"
proof (intro impI conjI allI)
  assume i: "initialized p" and n: "lock_fn = 0 \<or> unlock_fn = 0"
  then show "mempool_set_sync (Some p) lock_fn unlock_fn ctx =
       Returned MEMPOOL_OK
         (Some (p\<lparr> sync := \<lparr> lock = lock_fn, unlock = unlock_fn, user_ctx = ctx \<rparr>,
                   sync_enabled := False \<rparr>)) None []"
    by (auto simp: mempool_set_sync_def)
next
  fix ops q calls
  assume "run_ops ops (p\<lparr> sync := \<lparr> lock = lock_fn, unlock = unlock_fn, user_ctx = ctx \<rparr>,
                          sync_enabled := False \<rparr>) = Some (q, calls)"
  from run_ops_disabled[OF _ this]
  show "calls = []" "\<not> sync_enabled q" "sync q = \<lparr> lock = lock_fn, unlock = unlock_fn, user_ctx = ctx \<rparr>"
    by simp_all
qed

theorem set_sync_null_disables_witness:
  "initialized example_hooked \<and> ((0x5000 :: uintptr_t) = 0 \<or> (0 :: uintptr_t) = 0) \<and>
   mempool_set_sync (Some example_hooked) 0x5000 0 0x7000
     = Returned MEMPOOL_OK (Some example_unhooked) None [] \<and>
   run_ops [Op_alloc True, Op_get_stats True] example_unhooked = Some (example_unhooked_1, [])"
proof -
  have i: "initialized example_hooked" by (simp add: example_hooked_def example_pool_def)
  have e: "example_hooked\<lparr> sync := \<lparr> lock = 0x5000, unlock = 0, user_ctx = 0x7000 \<rparr>,
                         sync_enabled := False \<rparr> = example_unhooked"
    by (simp add: example_hooked_def example_unhooked_def)
  have "\<exists>calls. run_ops [Op_alloc True, Op_get_stats True] example_unhooked
          = Some (example_unhooked_1, calls)"
    by (simp add: mempool_alloc_def mempool_get_stats_def mempool_block_index_def bit_mask_def
          Let_def example_unhooked_def example_unhooked_1_def example_pool_1_def
          example_pool_def example_links)
  then obtain calls where
    c: "run_ops [Op_alloc True, Op_get_stats True] example_unhooked
          = Some (example_unhooked_1, calls)" ..
  from set_sync_null_disables[where p = example_hooked and lock_fn = "0x5000"
      and unlock_fn = 0 and ctx = "0x7000"] i c
  show ?thesis unfolding e by blast
qed

text \<open>
  Claim C8, as stated, says that the call clears any callback installed before from
  the hook record. On the example pool with the callbacks \<open>0x5000\<close> and \<open>0x6000\<close>
  installed, \<^verbatim>\<open>mempool_set_sync\<close> with the lock callback \<open>0x5000\<close> and a \<^verbatim>\<open>NULL\<close> unlock
  callback leaves \<open>0x5000\<close> in the record.
\<close>

theorem set_sync_null_keeps_other_callback:
  "mempool_set_sync (Some example_pool) 0x5000 0x6000 0x7000
     = Returned MEMPOOL_OK (Some example_hooked) None []
   \<and> mempool_set_sync (Some example_hooked) 0x5000 0 0x7000
     = Returned MEMPOOL_OK (Some example_unhooked) None []
   \<and> lock (sync example_hooked) = 0x5000
   \<and> lock (sync example_unhooked) = 0x5000
   \<and> lock (sync example_unhooked) \<noteq> 0"
  by (simp add: mempool_set_sync_def example_hooked_def example_unhooked_def example_pool_def)

section \<open>Block sizes that do not fit 32 bits\<close>

text \<open>
  \<^verbatim>\<open>mempool_init\<close> rejects a block count and a bitmap size above \<^verbatim>\<open>UINT32_MAX\<close>, but it
  stores the aligned block size in a 32-bit field without such a check, and
  \<^verbatim>\<open>align_up\<close> adds without a check for overflow. The theorems of this section run the
  code on inputs where that matters.
\<close>

lemma blank_mem: "bitmap_mem blank = (\<lambda>_. 0)" "block_mem blank = (\<lambda>_. 0)"
  by (simp_all add: blank_def)

lemma plan_loop_big: "plan_loop 8589934616 4294967304 8 2 0 0 = (2, 1, 8, True)"
  by (simp add: plan_loop.simps Let_def)

lemma big_links:
  "load_ptr big_mem 0x100002010 = 0x2008" "load_ptr big_mem 0x2008 = 0"
  "load_ptr (store_ptr (store_ptr big_mem 0x2008 0) 0x2010 0x2008) 0x2010 = 0x2008"
  "load_ptr (store_ptr (store_ptr big_mem 0x2008 0) 0x2010 0x2008) 0x2008 = 0"
  by (simp_all add: big_mem_def load_simps)

lemma init_big:
  "mempool_init 0x1000 128 0x2000 8589934616 4294967304 8 True blank
     = Returned MEMPOOL_OK (Some big_pool) (Some 0x1000) []"
  using blank_mem
  by (simp add: mempool_init_def is_power_of_two_def align_up_def sizeof_mempool_def
        sizeof_free_node_t_def UINT32_MAX_def plan_loop_big Let_def memset_pool_blank
        memset_bitmap_zero big_pool_def big_mem_def build_free_list_numeral)

lemma alloc_big:
  "mempool_alloc (Some big_pool) True
     = Returned MEMPOOL_OK (Some big_pool_1) (Some 0x100002010) []"
  by (simp add: mempool_alloc_def mempool_block_index_def bit_mask_def Let_def
        mempool_internal_lock_def mempool_internal_unlock_def big_pool_def big_pool_1_def
        big_links)

text \<open>
  Claim C2 says that in every reachable pool bit \<open>i\<close> is set if and only if block \<open>i\<close>
  is not on the free list. With a block size of \<open>2^32 + 8\<close>, \<^verbatim>\<open>mempool_init\<close> succeeds
  with two blocks; the first \<^verbatim>\<open>mempool_alloc\<close> returns the block at \<open>0x100002010\<close> and
  sets no bit, because the index computed with the truncated block size lies outside
  the bitmap. The free list then holds the block at \<open>0x2008\<close> only, \<open>free_blocks\<close> is 1
  of 2, the bitmap byte is 0, and \<^verbatim>\<open>mempool_free\<close> rejects the block just returned.
\<close>

theorem truncated_block_size_breaks_bitmap:
  "mempool_init 0x1000 128 0x2000 8589934616 4294967304 8 True blank
     = Returned MEMPOOL_OK (Some big_pool) (Some 0x1000) []
   \<and> mempool_alloc (Some big_pool) True
     = Returned MEMPOOL_OK (Some big_pool_1) (Some 0x100002010) []
   \<and> free_list big_pool_1 = 0x2008 \<and> load_ptr (block_mem big_pool_1) 0x2008 = 0
   \<and> free_blocks big_pool_1 = 1 \<and> total_blocks big_pool_1 = 2
   \<and> bitmap_bytes big_pool_1 = 1 \<and> bitmap_mem big_pool_1 0 = 0
   \<and> mempool_free (Some big_pool_1) 0x100002010
     = Returned MEMPOOL_ERR_INVALID_BLOCK (Some big_pool_1) None []"
  using init_big alloc_big
  by (simp add: big_pool_1_def big_pool_def mempool_free_def range_check_def
        blocks_end_addr_def big_links)

theorem truncated_block_size_breaks_bitmap_witness:
  "mempool_free (Some big_pool_1) 0x100002010
     = Returned MEMPOOL_ERR_INVALID_BLOCK (Some big_pool_1) None []
   \<and> bitmap_mem big_pool_1 0 = 0 \<and> free_list big_pool_1 = 0x2008"
  using truncated_block_size_breaks_bitmap by simp

lemma alloc_big_1:
  "mempool_alloc (Some big_pool_1) True
     = Returned MEMPOOL_OK (Some big_pool_2) (Some 0x2008) []"
  by (simp add: mempool_alloc_def mempool_block_index_def bit_mask_def Let_def
        mempool_internal_lock_def mempool_internal_unlock_def big_pool_def big_pool_1_def
        big_pool_2_def big_links)

lemma alloc_n_big:
  "alloc_n 2 big_pool = Some (big_pool_2, [0x100002010, 0x2008])"
  using alloc_big alloc_big_1 by (simp add: alloc_n_numeral)

text \<open>
  Claim C4 says that after \<open>total_blocks\<close> successful allocations the next
  \<^verbatim>\<open>mempool_alloc\<close> returns \<^verbatim>\<open>MEMPOOL_ERR_OUT_OF_MEMORY\<close> with all blocks returned before
  still recorded as allocated. On the same pool the two allocations return the blocks
  \<open>0x100002010\<close> and \<open>0x2008\<close>, and the third call reports exhaustion and leaves the
  pool as it is; but the pool has no record of the block \<open>0x100002010\<close>: the only bit
  set is that of block 0, the pool does not regard the pointer as handed out, and
  \<^verbatim>\<open>mempool_free\<close> rejects it, where the exhaustion test of the repository frees every
  block after the failure and expects \<^verbatim>\<open>MEMPOOL_OK\<close>.
\<close>

theorem exhausted_pool_misses_block:
  "mempool_init 0x1000 128 0x2000 8589934616 4294967304 8 True blank
     = Returned MEMPOOL_OK (Some big_pool) (Some 0x1000) []
   \<and> unat (total_blocks big_pool) = 2
   \<and> alloc_n 2 big_pool = Some (big_pool_2, [0x100002010, 0x2008])
   \<and> mempool_alloc (Some big_pool_2) True
     = Returned MEMPOOL_ERR_OUT_OF_MEMORY (Some big_pool_2) None []
   \<and> bitmap_bytes big_pool_2 = 1 \<and> bitmap_mem big_pool_2 0 = 1
   \<and> \<not> held big_pool_2 0x100002010
   \<and> mempool_free (Some big_pool_2) 0x100002010
     = Returned MEMPOOL_ERR_INVALID_BLOCK (Some big_pool_2) None []"
  using init_big alloc_n_big
  by (simp add: big_pool_2_def big_pool_def mempool_alloc_def mempool_free_def held_def
        range_check_def blocks_end_addr_def mempool_internal_lock_def
        mempool_internal_unlock_def)

theorem exhausted_pool_misses_block_witness:
  "alloc_n 2 big_pool = Some (big_pool_2, [0x100002010, 0x2008])
   \<and> mempool_alloc (Some big_pool_2) True
     = Returned MEMPOOL_ERR_OUT_OF_MEMORY (Some big_pool_2) None []
   \<and> bitmap_mem big_pool_2 0 = 1
   \<and> mempool_free (Some big_pool_2) 0x100002010
     = Returned MEMPOOL_ERR_INVALID_BLOCK (Some big_pool_2) None []"
  using exhausted_pool_misses_block by simp

text \<open>
  Claim C6 says that \<^verbatim>\<open>mempool_reset\<close> rebuilds the free list in the same order as
  \<^verbatim>\<open>mempool_init\<close>. On the same pool \<^verbatim>\<open>mempool_init\<close> builds the list of \<open>0x100002010\<close> and
  \<open>0x2008\<close>, the two blocks; \<^verbatim>\<open>mempool_reset\<close> strides by the truncated block size and
  builds the list of \<open>0x2010\<close> and \<open>0x2008\<close>, whose head lies inside the first block.
\<close>

theorem reset_rebuilds_other_list:
  "mempool_init 0x1000 128 0x2000 8589934616 4294967304 8 True blank
     = Returned MEMPOOL_OK (Some big_pool) (Some 0x1000) []
   \<and> free_list big_pool = 0x100002010
   \<and> load_ptr (block_mem big_pool) 0x100002010 = 0x2008
   \<and> load_ptr (block_mem big_pool) 0x2008 = 0
   \<and> mempool_reset (Some big_pool) = Returned MEMPOOL_OK (Some big_pool_reset) None []
   \<and> free_list big_pool_reset = 0x2010
   \<and> load_ptr (block_mem big_pool_reset) 0x2010 = 0x2008
   \<and> load_ptr (block_mem big_pool_reset) 0x2008 = 0"
  using init_big
  by (simp add: mempool_reset_def Let_def memset_bitmap_zero build_free_list_numeral
        mempool_internal_lock_def mempool_internal_unlock_def big_pool_def big_pool_reset_def
        big_links)

theorem reset_rebuilds_other_list_witness:
  "free_list big_pool = 0x100002010 \<and> free_list big_pool_reset = 0x2010
   \<and> mempool_reset (Some big_pool) = Returned MEMPOOL_OK (Some big_pool_reset) None []"
  using reset_rebuilds_other_list by simp

text \<open>
  Where the \<open>block_size\<close> field is below 8 (a block size of \<open>2^32 + 1\<close> with alignment 1
  leaves a field of 1), the links that \<^verbatim>\<open>mempool_reset\<close> stores share bytes: each store
  overwrites the upper bytes of the links stored before. In \<open>narrow_pool\<close> the reset
  leaves the head \<open>0x2003\<close> linked to \<open>0x2002\<close>, whose link reads \<open>0x200201\<close>, and the third
  allocation after the reset returns \<open>0x200201\<close>, which is no block.
\<close>

lemma plan_loop_narrow: "plan_loop 12884901892 4294967297 1 3 0 0 = (3, 1, 1, True)"
  by (simp add: plan_loop.simps Let_def)

lemma init_narrow:
  "mempool_init 0x1000 128 0x2000 12884901892 4294967297 1 True blank
     = Returned MEMPOOL_OK (Some narrow_pool) (Some 0x1000) []"
  using blank_mem
  by (simp add: mempool_init_def is_power_of_two_def align_up_def sizeof_mempool_def
        sizeof_free_node_t_def UINT32_MAX_def plan_loop_narrow Let_def memset_pool_blank
        memset_bitmap_zero narrow_pool_def narrow_mem_def build_free_list_numeral)

lemma reset_narrow:
  "mempool_reset (Some narrow_pool) = Returned MEMPOOL_OK (Some narrow_pool_reset) None []"
  by (simp add: mempool_reset_def Let_def memset_bitmap_zero build_free_list_numeral
        mempool_internal_lock_def mempool_internal_unlock_def narrow_pool_def
        narrow_pool_reset_def narrow_reset_mem_def)

lemma narrow_links:
  "load_ptr narrow_reset_mem 0x2003 = 0x2002"
  "load_ptr narrow_reset_mem 0x2002 = 0x200201"
  "load_ptr narrow_reset_mem 0x2001 = 0x20020100"
  "load_ptr narrow_reset_mem 0x200201 = 0"
  by (simp_all add: narrow_reset_mem_def narrow_mem_def load_ptr_def store_ptr_def)

lemma alloc_n_narrow:
  "\<exists>q. alloc_n 3 narrow_pool_reset = Some (q, [0x2003, 0x2002, 0x200201])"
  by (simp add: alloc_n_numeral mempool_alloc_def mempool_block_index_def bit_mask_def Let_def
        mempool_internal_lock_def mempool_internal_unlock_def narrow_pool_def
        narrow_pool_reset_def narrow_links)

lemma narrow_pool_overlap:
  "mempool_init 0x1000 128 0x2000 12884901892 4294967297 1 True blank
     = Returned MEMPOOL_OK (Some narrow_pool) (Some 0x1000) []
   \<and> mempool_reset (Some narrow_pool) = Returned MEMPOOL_OK (Some narrow_pool_reset) None []
   \<and> free_list narrow_pool_reset = 0x2003
   \<and> load_ptr (block_mem narrow_pool_reset) 0x2003 = 0x2002
   \<and> load_ptr (block_mem narrow_pool_reset) 0x2002 = 0x200201
   \<and> load_ptr (block_mem narrow_pool_reset) 0x2001 = 0x20020100
   \<and> (\<exists>q. alloc_n 3 narrow_pool_reset = Some (q, [0x2003, 0x2002, 0x200201]))"
  using init_narrow reset_narrow alloc_n_narrow narrow_links
  by (simp add: narrow_pool_reset_def)

lemma plan_loop_zero_size: "plan_loop 4294967304 4294967296 8 1 0 0 = (1, 1, 8, True)"
  by (simp add: plan_loop.simps Let_def)

text \<open>
  Claim C7 says that the first \<open>N\<close> allocations after \<^verbatim>\<open>mempool_init\<close> return the blocks
  in descending order. With a block size of \<open>2^32\<close>, \<^verbatim>\<open>mempool_init\<close> succeeds with one
  block and a \<open>block_size\<close> field of 0, and the first \<^verbatim>\<open>mempool_alloc\<close> divides by that
  field in \<^verbatim>\<open>mempool_block_index\<close>: it returns no block.
\<close>

theorem first_alloc_divides_by_zero:
  "mempool_init 0x1000 128 0x2000 4294967304 4294967296 8 True blank
     = Returned MEMPOOL_OK (Some zero_size_pool) (Some 0x1000) []
   \<and> total_blocks zero_size_pool = 1 \<and> block_size zero_size_pool = 0
   \<and> mempool_alloc (Some zero_size_pool) True = Undefined"
  using blank_mem
  by (simp add: mempool_init_def is_power_of_two_def align_up_def sizeof_mempool_def
        sizeof_free_node_t_def UINT32_MAX_def plan_loop_zero_size Let_def memset_pool_blank
        memset_bitmap_zero zero_size_pool_def build_free_list_numeral
        mempool_alloc_def mempool_block_index_def)

theorem first_alloc_divides_by_zero_witness:
  "total_blocks zero_size_pool = 1 \<and> mempool_alloc (Some zero_size_pool) True = Undefined"
  using first_alloc_divides_by_zero by simp

text \<open>
  Claim C3 says that \<^verbatim>\<open>mempool_init\<close> returns the invalid-size error when no block count
  fits. With a block size of \<open>2^64 - 1\<close> and alignment 8 (a power of two, the region
  aligned, the block size at least the size of a link) no block fits a region of 40
  bytes; the sum in \<^verbatim>\<open>align_up\<close> wraps around, the aligned block size is 0, and
  \<^verbatim>\<open>mempool_init\<close> divides the region size by it.
\<close>

theorem init_divides_by_zero:
  "is_power_of_two 8 \<and> (0x2000 AND (8 - 1)) = (0 :: uintptr_t)
   \<and> \<not> (18446744073709551615 < sizeof_free_node_t)
   \<and> align_up 18446744073709551615 8 = 0
   \<and> mempool_init 0x1000 128 0x2000 40 18446744073709551615 8 True blank = Undefined"
  by (simp add: mempool_init_def is_power_of_two_def align_up_def sizeof_mempool_def
        sizeof_free_node_t_def Let_def)

theorem init_divides_by_zero_witness:
  "mempool_init 0x1000 128 0x2000 40 18446744073709551615 8 True blank = Undefined"
  using init_divides_by_zero by simp

section \<open>The free list and the block addresses\<close>

lemma list_from_store:
  "\<forall>x \<in> set xs. apart a x \<Longrightarrow> list_from (store_ptr mem a v) h xs = list_from mem h xs"
  by (induction xs arbitrary: h) (auto simp: load_store_far)

lemma list_from_byte:
  "\<forall>x \<in> set xs. \<forall>i < 8. x + of_nat i \<noteq> y
     \<Longrightarrow> list_from (mem(y := v)) h xs = list_from mem h xs"
  by (induction xs arbitrary: h) (auto simp: load_byte_write)

lemma layout_okD:
  assumes "layout_ok p"
  shows "block_size p \<noteq> 0" "0 < unat (block_size p)" "8 \<le> unat (block_size p)"
    "blocks_start p \<noteq> 0" "0 < unat (blocks_start p)"
    "unat (blocks_start p) + unat (total_blocks p) * unat (block_size p) \<le> 2 ^ 64"
proof -
  from assms show a: "8 \<le> unat (block_size p)" and b: "blocks_start p \<noteq> 0"
    and "unat (blocks_start p) + unat (total_blocks p) * unat (block_size p) \<le> 2 ^ 64"
    unfolding layout_ok_def by blast+
  from a show "0 < unat (block_size p)" by simp
  from a show "block_size p \<noteq> 0" by auto
  from b show "0 < unat (blocks_start p)" by (simp add: unat_gt_0)
qed

lemma block_addr_unat:
  assumes "layout_ok p" and "i < unat (total_blocks p)"
  shows "unat (block_addr p i) = unat (blocks_start p) + i * unat (block_size p)"
    and "unat (of_nat i * ucast (block_size p) :: uintptr_t) = i * unat (block_size p)"
proof -
  let ?B = "unat (block_size p)" and ?T = "unat (total_blocks p)"
  note l = layout_okD(6)[OF assms(1)] and B = layout_okD(2)[OF assms(1)]
  have T: "?T < 2 ^ 32" using unsigned_less[of "total_blocks p", where 'a=nat] by simp
  have iB: "i * ?B < ?T * ?B" by (rule mult_less_mono1) (use assms(2) B in simp_all)
  note s0 = layout_okD(5)[OF assms(1)]
  have lt: "i * ?B < 2 ^ 64" using iB l by linarith
  have i64: "i < 2 ^ 64" using assms(2) T by simp
  have ui: "unat (of_nat i :: uintptr_t) = i" using i64 by (simp add: unat_of_nat)
  show m: "unat (of_nat i * ucast (block_size p) :: uintptr_t) = i * ?B"
    using lt by (simp add: unat_word_ariths(2) ui unat_ucast_up)
  have "unat (block_addr p i) = (unat (blocks_start p) + i * ?B) mod 2 ^ 64"
    unfolding block_addr_def by (simp only: unat_word_ariths(1) m) simp
  also have "\<dots> = unat (blocks_start p) + i * ?B"
    by (rule mod_less) (use iB l in linarith)
  finally show "unat (block_addr p i) = unat (blocks_start p) + i * ?B" .
qed

lemma block_addr_inj:
  assumes "layout_ok p" and "i < unat (total_blocks p)" and "j < unat (total_blocks p)"
    and "block_addr p i = block_addr p j"
  shows "i = j"
proof -
  note B = layout_okD(2)[OF assms(1)]
  have "unat (block_addr p i) = unat (block_addr p j)" using assms(4) by simp
  then have "unat (blocks_start p) + i * unat (block_size p)
         = unat (blocks_start p) + j * unat (block_size p)"
    by (simp only: block_addr_unat(1)[OF assms(1,2)] block_addr_unat(1)[OF assms(1,3)])
  then have "i * unat (block_size p) = j * unat (block_size p)" by linarith
  with B show ?thesis by simp
qed

lemma apart_unat:
  assumes "unat a + 8 \<le> unat b" and "unat b + 8 \<le> 2 ^ 64"
  shows "apart a b"
  using assms by (auto simp add: apart_def unat_sub_if_size word_size)

lemma block_addr_apart:
  assumes lay: "layout_ok p" and i: "i < unat (total_blocks p)"
    and j: "j < unat (total_blocks p)" and ne: "i \<noteq> j"
  shows "apart (block_addr p i) (block_addr p j)"
proof -
  let ?B = "unat (block_size p)" and ?S = "unat (blocks_start p)"
  note l = layout_okD[OF lay]
  have ord: "apart (block_addr p m) (block_addr p n)"
    if m: "m < n" and n: "n < unat (total_blocks p)" for m n
  proof -
    have mT: "m < unat (total_blocks p)" using m n by simp
    have "Suc m \<le> n" using m by simp
    then have "Suc m * ?B \<le> n * ?B" by (rule mult_le_mono1)
    then have a: "m * ?B + 8 \<le> n * ?B" using l(3) by simp
    have "Suc n \<le> unat (total_blocks p)" using n by simp
    then have "Suc n * ?B \<le> unat (total_blocks p) * ?B" by (rule mult_le_mono1)
    then have b: "?S + n * ?B + 8 \<le> 2 ^ 64" using l(3,6) by simp
    show ?thesis
      by (rule apart_unat)
         (use a b in \<open>simp_all add: block_addr_unat(1)[OF lay mT] block_addr_unat(1)[OF lay n]\<close>)
  qed
  show ?thesis
  proof (cases "i < j")
    case True
    then show ?thesis by (rule ord[OF _ j])
  next
    case False
    with ne have "j < i" by simp
    from ord[OF this i] show ?thesis by (rule apart_sym)
  qed
qed

lemma block_bytes_disjoint:
  assumes lay: "layout_ok p" and i: "i < unat (total_blocks p)"
    and j: "j < unat (total_blocks p)" and ne: "i \<noteq> j"
    and k: "k < ucast (block_size p)" and n: "n < 8"
  shows "block_addr p j + of_nat n \<noteq> block_addr p i + k"
proof -
  let ?B = "unat (block_size p)" and ?S = "unat (blocks_start p)"
  note l = layout_okD[OF lay]
  have uk: "unat k < ?B" using k by (simp add: word_less_nat_alt unat_ucast_up)
  have un: "unat (of_nat n :: uintptr_t) = n" using n by (simp add: unat_of_nat)
  have "Suc i \<le> unat (total_blocks p)" using i by simp
  then have "Suc i * ?B \<le> unat (total_blocks p) * ?B" by (rule mult_le_mono1)
  then have bi: "?S + i * ?B + ?B \<le> 2 ^ 64" using l(6) by simp
  have "Suc j \<le> unat (total_blocks p)" using j by simp
  then have "Suc j * ?B \<le> unat (total_blocks p) * ?B" by (rule mult_le_mono1)
  then have bj: "?S + j * ?B + ?B \<le> 2 ^ 64" using l(6) by simp
  have ui: "unat (block_addr p i + k) = ?S + i * ?B + unat k"
    using bi uk by (simp add: unat_add_lem[THEN iffD1] block_addr_unat(1)[OF lay i])
  have uj: "unat (block_addr p j + of_nat n) = ?S + j * ?B + n"
    using bj n l(3) by (simp add: unat_add_lem[THEN iffD1] block_addr_unat(1)[OF lay j] un)
  have "?S + j * ?B + n \<noteq> ?S + i * ?B + unat k"
  proof (cases "i < j")
    case True
    then have "Suc i \<le> j" by simp
    then have "Suc i * ?B \<le> j * ?B" by (rule mult_le_mono1)
    then show ?thesis using uk by simp
  next
    case False
    with ne have "Suc j \<le> i" by simp
    then have "Suc j * ?B \<le> i * ?B" by (rule mult_le_mono1)
    then show ?thesis using n l(3) by simp
  qed
  then show ?thesis using ui uj by metis
qed

lemma block_addr_nonzero:
  assumes "layout_ok p" and "i < unat (total_blocks p)"
  shows "block_addr p i \<noteq> 0"
proof -
  from layout_okD(5)[OF assms(1)] have "0 < unat (block_addr p i)"
    using block_addr_unat(1)[OF assms] by simp
  then show ?thesis by (simp add: unat_gt_0)
qed

lemma block_addr_index:
  assumes "layout_ok p" and "i < unat (total_blocks p)"
  shows "mempool_block_index p (block_addr p i) = Some (of_nat i)"
    and "unat (of_nat i :: uint32_t) = i"
proof -
  let ?B = "unat (block_size p)"
  note B = layout_okD(2)[OF assms(1)] and nz = layout_okD(1)[OF assms(1)]
  have T: "unat (total_blocks p) < 2 ^ 32"
    using unsigned_less[of "total_blocks p", where 'a=nat] by simp
  have off: "block_addr p i - blocks_start p = of_nat i * ucast (block_size p)"
    by (simp add: block_addr_def)
  have i32: "i < 2 ^ 32" using assms(2) T by simp
  have "unat ((of_nat i * ucast (block_size p) :: uintptr_t) div ucast (block_size p)) = i"
    using B by (simp add: unat_div block_addr_unat(2)[OF assms] unat_ucast_up)
  then have "unat (ucast ((of_nat i * ucast (block_size p) :: uintptr_t) div ucast (block_size p)) :: uint32_t)
               = i"
    using i32 by (simp add: unat_ucast_down)
  then have "(ucast ((of_nat i * ucast (block_size p) :: uintptr_t) div ucast (block_size p)) :: uint32_t)
               = of_nat i"
    using i32 by (simp add: word_unat_eq_iff unat_of_nat)
  then show "mempool_block_index p (block_addr p i) = Some (of_nat i)"
    using nz by (simp add: mempool_block_index_def Let_def off)
  show "unat (of_nat i :: uint32_t) = i"
    using assms(2) T by (simp add: unat_of_nat)
qed

lemma checked_is_block:
  assumes lay: "layout_ok p"
    and bb: "unat (bitmap_bytes p) = (unat (total_blocks p) + 7) div 8"
    and rc: "range_check p blk" and bc: "boundary_check p blk"
  shows "\<exists>i < unat (total_blocks p). blk = block_addr p i"
proof -
  let ?off = "blk - blocks_start p" and ?B = "unat (block_size p)"
  define i where "i = unat ?off div ?B"
  have off: "unat ?off < unat (total_blocks p) * ?B" by (rule range_check_offset[OF rc])
  note B = layout_okD(2)[OF lay]
  have i: "i < unat (total_blocks p)"
    unfolding i_def using off B by (simp add: less_mult_imp_div_less)
  from bc have "unat (?off mod ucast (block_size p)) = 0"
    by (simp add: boundary_check_def)
  then have "unat ?off mod ?B = 0" by (simp add: unat_mod unat_ucast_up)
  then have "unat ?off = i * ?B" unfolding i_def by auto
  then have "unat ?off = unat (of_nat i * ucast (block_size p) :: uintptr_t)"
    by (simp add: block_addr_unat(2)[OF lay i])
  then have "?off = of_nat i * ucast (block_size p)" by (simp add: word_unat_eq_iff)
  then have "blk = block_addr p i" by (simp add: block_addr_def algebra_simps)
  with i show ?thesis by blast
qed

lemma build_free_list_list:
  assumes "build_free_list k c prev s mem = (h, mem')"
    and "\<forall>j < k. c + of_nat j * s \<noteq> 0"
    and "\<forall>i < k. \<forall>j < k. i < j \<longrightarrow> apart (c + of_nat i * s) (c + of_nat j * s)"
    and "list_from mem prev ys"
    and "\<forall>j < k. \<forall>y \<in> set ys. apart (c + of_nat j * s) y"
  shows "list_from mem' h (rev (map (\<lambda>j. c + of_nat j * s) [0..<k]) @ ys)"
  using assms
proof (induction k arbitrary: c prev mem ys)
  case 0
  then show ?case by simp
next
  case (Suc k)
  let ?f = "\<lambda>j. c + of_nat j * s"
  let ?g = "\<lambda>j. (c + s) + of_nat j * s"
  have fg: "?g j = ?f (Suc j)" for j by (simp add: algebra_simps)
  have mapfg: "map ?f [0..<Suc k] = c # map ?g [0..<k]"
  proof -
    have "[0..<Suc k] = 0 # map Suc [0..<k]" by (simp add: upt_conv_Cons map_Suc_upt)
    then show ?thesis by (simp add: fg comp_def)
  qed
  from Suc.prems(1) have b: "build_free_list k (c + s) c s (store_ptr mem c prev) = (h, mem')"
    by simp
  have nz: "\<forall>j < k. ?g j \<noteq> 0"
    using Suc.prems(2) by (auto simp: fg)
  have ap: "\<forall>i < k. \<forall>j < k. i < j \<longrightarrow> apart (?g i) (?g j)"
  proof (intro allI impI)
    fix i j assume "i < k" "j < k" "i < j"
    then show "apart (?g i) (?g j)"
      using Suc.prems(3)[rule_format, of "Suc i" "Suc j"] by (simp add: fg)
  qed
  have c0: "c \<noteq> 0" using Suc.prems(2)[rule_format, of 0] by simp
  have cy: "\<forall>y \<in> set ys. apart c y" using Suc.prems(5)[rule_format, of 0] by simp
  have l: "list_from (store_ptr mem c prev) c (c # ys)"
    using c0 cy Suc.prems(4) by (simp add: list_from_store load_store_same)
  have ny: "\<forall>j < k. \<forall>y \<in> set (c # ys). apart (?g j) y"
  proof (intro allI impI ballI)
    fix j y assume j: "j < k" and y: "y \<in> set (c # ys)"
    show "apart (?g j) y"
    proof (cases "y = c")
      case True
      have "apart (?f 0) (?f (Suc j))"
        using Suc.prems(3)[rule_format, of 0 "Suc j"] j by simp
      then have "apart c (?g j)" by (simp add: fg)
      then show ?thesis using True by (simp add: apart_sym)
    next
      case False
      with y have "y \<in> set ys" by simp
      then show ?thesis using Suc.prems(5)[rule_format, of "Suc j" y] j by (simp add: fg)
    qed
  qed
  from Suc.IH[OF b nz ap l ny]
  show ?case unfolding mapfg by simp
qed

section \<open>Allocation and release keep the free list and the bitmap in step\<close>

lemma marked_in_set_eq:
  assumes "unat (idx div 8) < len"
  shows "marked_in (bm(unat (idx div 8) := bm (unat (idx div 8)) OR bit_mask (idx mod 8))) len
           = insert (unat idx) (marked_in bm len)"
proof (rule set_eqI)
  fix i
  have lt8: "unat (idx mod 8) < 8"
    by (metis idx_div_mod(2) mod_less_divisor zero_less_numeral)
  have eq: "i = unat idx \<longleftrightarrow> i div 8 = unat (idx div 8) \<and> i mod 8 = unat (idx mod 8)"
  proof
    assume "i = unat idx" then show "i div 8 = unat (idx div 8) \<and> i mod 8 = unat (idx mod 8)"
      by (simp add: idx_div_mod)
  next
    assume h: "i div 8 = unat (idx div 8) \<and> i mod 8 = unat (idx mod 8)"
    have "i = 8 * (i div 8) + i mod 8" by simp
    also have "\<dots> = 8 * (unat idx div 8) + unat idx mod 8"
      using h by (simp add: idx_div_mod)
    also have "\<dots> = unat idx" by simp
    finally show "i = unat idx" .
  qed
  show "i \<in> marked_in (bm(unat (idx div 8) := bm (unat (idx div 8)) OR bit_mask (idx mod 8))) len
          \<longleftrightarrow> i \<in> insert (unat idx) (marked_in bm len)"
    using lt8 assms by (auto simp: marked_in_def bit_or_iff bit_bit_mask eq)
qed

lemma pool_inv_withD:
  assumes "pool_inv_with p js"
  shows "counts_inv p" "layout_ok p" "marked p \<subseteq> {..< unat (total_blocks p)}"
    "list_from (block_mem p) (free_list p) (map (block_addr p) js)" "distinct js"
    "set js = {..< unat (total_blocks p)} - marked p"
    "length js = unat (free_blocks p)"
  using assms unfolding pool_inv_with_def by blast+

lemma block_addr_cong:
  "blocks_start p' = blocks_start p \<Longrightarrow> block_size p' = block_size p
     \<Longrightarrow> block_addr p' = block_addr p"
  by (simp add: block_addr_def fun_eq_iff)

lemma layout_ok_cong:
  "blocks_start p' = blocks_start p \<Longrightarrow> block_size p' = block_size p
     \<Longrightarrow> total_blocks p' = total_blocks p \<Longrightarrow> layout_ok p' = layout_ok p"
  by (simp add: layout_ok_def)

lemma index_byte_in_bitmap:
  assumes "unat (bitmap_bytes p) = (unat (total_blocks p) + 7) div 8"
    and "i < unat (total_blocks p)"
  shows "(of_nat i :: uint32_t) div 8 < bitmap_bytes p"
    and "unat ((of_nat i :: uint32_t) div 8) < unat (bitmap_bytes p)"
proof -
  have T: "unat (total_blocks p) < 2 ^ 32"
    using unsigned_less[of "total_blocks p", where 'a=nat] by simp
  have ui: "unat (of_nat i :: uint32_t) = i" using assms(2) T by (simp add: unat_of_nat)
  show "unat ((of_nat i :: uint32_t) div 8) < unat (bitmap_bytes p)"
    using assms by (simp add: unat_div ui)
  then show "(of_nat i :: uint32_t) div 8 < bitmap_bytes p"
    by (simp add: word_less_nat_alt)
qed

lemma alloc_unfold:
  assumes "initialized p" "free_list p \<noteq> 0" "free_blocks p \<noteq> 0"
    and "mempool_block_index p (free_list p) = Some index"
  shows "mempool_alloc (Some p) True =
           Returned MEMPOOL_OK (Some (alloc_post p index)) (Some (free_list p))
             (mempool_internal_lock p @ mempool_internal_unlock (alloc_post p index))"
proof -
  have nz: "block_size p \<noteq> 0" and ix: "index = ucast ((free_list p - blocks_start p) div ucast (block_size p))"
    using assms(4) by (auto simp: mempool_block_index_def Let_def split: if_splits)
  show ?thesis
    using assms(1,2,3) nz
    by (simp add: mempool_alloc_def Let_def mempool_block_index_def alloc_post_def ix)
qed

lemma alloc_pool_inv:
  assumes inv: "pool_inv_with p (i # js)"
  shows "\<exists>p' calls. mempool_alloc (Some p) True
            = Returned MEMPOOL_OK (Some p') (Some (block_addr p i)) calls \<and>
          pool_inv_with p' js \<and> marked p' = insert i (marked p) \<and>
          blocks_start p' = blocks_start p \<and> block_size p' = block_size p \<and>
          total_blocks p' = total_blocks p"
proof -
  note d = pool_inv_withD[OF inv]
  note c = counts_invD[OF d(1)]
  have iT: "i < unat (total_blocks p)" using d(6) by auto
  have im: "i \<notin> marked p" using d(6) by auto
  from d(4) have hd: "free_list p = block_addr p i" "free_list p \<noteq> 0"
    and tl: "list_from (block_mem p) (load_ptr (block_mem p) (block_addr p i))
               (map (block_addr p) js)"
    by auto
  have fbn: "free_blocks p \<noteq> 0" using d(7) by (auto simp: unat_eq_0[symmetric] simp del: unat_eq_0)
  note ix = block_addr_index[OF d(2) iT]
  note bx = index_byte_in_bitmap[OF c(9) iT]
  define p' where "p' = alloc_post p (of_nat i)"
  have a: "mempool_alloc (Some p) True
            = Returned MEMPOOL_OK (Some p') (Some (block_addr p i))
                (mempool_internal_lock p @ mempool_internal_unlock p')"
    using alloc_unfold[OF c(1) hd(2) fbn, of "of_nat i"] ix(1)
    by (simp add: hd(1) p'_def)
  have f: "blocks_start p' = blocks_start p" "block_size p' = block_size p"
    "total_blocks p' = total_blocks p" "bitmap_bytes p' = bitmap_bytes p"
    "free_blocks p' = free_blocks p - 1" "block_mem p' = block_mem p"
    "free_list p' = load_ptr (block_mem p) (block_addr p i)"
    by (simp_all add: p'_def alloc_post_def hd(1))
  have m: "marked p' = insert i (marked p)"
    using marked_in_set_eq[OF bx(2), of "bitmap_mem p"] bx(1)
    by (simp add: marked_def f(4) p'_def alloc_post_def ix(2))
  have cnt: "counts_inv p'" by (rule alloc_counts_inv[OF d(1) a])
  have lay: "layout_ok p'" using d(2) by (simp add: layout_ok_cong[OF f(1,2,3)])
  have pos: "0 < unat (free_blocks p)" using fbn by (simp add: unat_gt_0)
  have len: "length js = unat (free_blocks p')"
    using d(7) fbn by (simp add: f(5) unat_minus_one)
  have st: "set js = {..< unat (total_blocks p')} - marked p'"
    using d(5,6) by (auto simp: m f(3))
  have sub: "marked p' \<subseteq> {..< unat (total_blocks p')}"
    using d(3) iT by (simp add: m f(3))
  have "pool_inv_with p' js"
    unfolding pool_inv_with_def
    using cnt lay sub tl d(5) st len
    by (simp add: f(6,7) block_addr_cong[OF f(1,2)])
  with a m f show ?thesis by blast
qed

lemma alloc_pool_inv_empty:
  assumes inv: "pool_inv_with p []"
  shows "mempool_alloc (Some p) True
            = Returned MEMPOOL_ERR_OUT_OF_MEMORY (Some p) None
                (mempool_internal_lock p @ mempool_internal_unlock p)"
proof -
  note d = pool_inv_withD[OF inv]
  from d(4) have "free_list p = 0" by simp
  then show ?thesis using counts_invD(1)[OF d(1)] by (simp add: mempool_alloc_def)
qed

lemma free_error_unchanged:
  assumes "mempool_free (Some p) blk = Returned e (Some p') out calls" and "e \<noteq> MEMPOOL_OK"
  shows "p' = p"
  using assms by (auto simp: mempool_free_def Let_def split: if_splits option.splits)

lemma alloc_error_unchanged:
  assumes "mempool_alloc (Some p) b = Returned e (Some p') out calls" and "e \<noteq> MEMPOOL_OK"
  shows "p' = p"
  using assms by (auto simp: mempool_alloc_def Let_def split: if_splits option.splits)

lemma alloc_ok_block:
  assumes "mempool_alloc (Some p) b = Returned MEMPOOL_OK (Some p') out calls"
  shows "b"
  using assms by (auto simp: mempool_alloc_def Let_def split: if_splits option.splits)

lemma alloc_step_pool_inv:
  assumes inv: "pool_inv_with p js"
    and a: "mempool_alloc (Some p) b = Returned e (Some p') out calls"
  shows "\<exists>js'. pool_inv_with p' js'"
proof (cases "e = MEMPOOL_OK")
  case False
  with a inv show ?thesis using alloc_error_unchanged by blast
next
  case True
  with a have b: "b" using alloc_ok_block by blast
  show ?thesis
  proof (cases js)
    case Nil
    with inv a b True show ?thesis using alloc_pool_inv_empty by fastforce
  next
    case (Cons i js')
    with inv alloc_pool_inv[of p i js'] a b show ?thesis by auto
  qed
qed

lemma free_pool_inv:
  assumes inv: "pool_inv_with p js"
    and f: "mempool_free (Some p) blk = Returned MEMPOOL_OK (Some p') out calls"
  shows "\<exists>i. blk = block_addr p i \<and> i \<in> marked p \<and> pool_inv_with p' (i # js) \<and>
           marked p' = marked p - {i}"
proof -
  note d = pool_inv_withD[OF inv]
  note c = counts_invD[OF d(1)]
  note ch = free_ok_checks[OF f]
  from checked_is_block[OF d(2) c(9) ch(2,3)] obtain i where
    i: "i < unat (total_blocks p)" "blk = block_addr p i" by blast
  note ix = block_addr_index[OF d(2) i(1)]
  note bx = index_byte_in_bitmap[OF c(9) i(1)]
  from free_cases_inv[OF d(1) ch] f ix(1) i(2)
  have set: "(bitmap_mem p (unat ((of_nat i :: uint32_t) div 8)) AND bit_mask (of_nat i mod 8)) \<noteq> 0"
    and p': "p' = free_post p blk (of_nat i)"
    by (auto split: if_splits)
  note mc = marked_in_clear[of "of_nat i" "unat (bitmap_bytes p)" "bitmap_mem p", OF bx(2) set]
  have im: "i \<in> marked p" using mc(1) by (simp add: marked_def ix(2))
  have g: "blocks_start p' = blocks_start p" "block_size p' = block_size p"
    "total_blocks p' = total_blocks p" "bitmap_bytes p' = bitmap_bytes p"
    "free_blocks p' = free_blocks p + 1"
    "block_mem p' = store_ptr (block_mem p) blk (free_list p)" "free_list p' = blk"
    by (simp_all add: p' free_post_def)
  have m: "marked p' = marked p - {i}"
    using mc(2) by (simp add: marked_def g(4) p' free_post_def ix(2))
  have cnt: "counts_inv p'" by (rule free_counts_inv[OF d(1) f])
  have lay: "layout_ok p'" using d(2) by (simp add: layout_ok_cong[OF g(1,2,3)])
  have inj: "\<forall>x \<in> set (map (block_addr p) js). apart (block_addr p i) x"
  proof
    fix x assume "x \<in> set (map (block_addr p) js)"
    then obtain j where j: "j \<in> set js" "x = block_addr p j" by auto
    then have jT: "j < unat (total_blocks p)" and "i \<noteq> j" using d(6) im by auto
    from block_addr_apart[OF d(2) i(1) this] show "apart (block_addr p i) x"
      by (simp add: j(2))
  qed
  have nz: "blk \<noteq> 0" by (rule ch(1))
  have l: "list_from (block_mem p') (free_list p') (map (block_addr p') (i # js))"
    using d(4) nz list_from_store[OF inj]
    by (simp add: g(6,7) block_addr_cong[OF g(1,2)] i(2) load_store_same)
  have ij: "i \<notin> set js" using d(6) im by auto
  have cpos: "0 < card (marked p)"
    using im by (auto simp: card_gt_0_iff marked_def finite_marked_in)
  have flt: "free_blocks p < total_blocks p"
    using cpos c(8) by (simp add: word_less_nat_alt)
  have len: "length (i # js) = unat (free_blocks p')"
    using d(7) word_succ_le(2)[OF flt] by (simp add: g(5))
  have st: "set (i # js) = {..< unat (total_blocks p')} - marked p'"
    using d(6) i(1) im by (auto simp: m g(3))
  have sub: "marked p' \<subseteq> {..< unat (total_blocks p')}"
    using d(3) by (auto simp: m g(3))
  have dj: "distinct (i # js)" using d(5) ij by simp
  have "pool_inv_with p' (i # js)"
    unfolding pool_inv_with_def
    using cnt lay sub l dj st len by blast
  with i(2) im m show ?thesis by blast
qed

lemma free_step_pool_inv:
  assumes inv: "pool_inv_with p js"
    and f: "mempool_free (Some p) blk = Returned e (Some p') out calls"
  shows "\<exists>js'. pool_inv_with p' js'"
proof (cases "e = MEMPOOL_OK")
  case False
  with f inv show ?thesis using free_error_unchanged by blast
next
  case True
  with free_pool_inv[OF inv] f show ?thesis by blast
qed

section \<open>Reset, the other steps, and the invariant of the specification\<close>

lemma block_list:
  assumes lay: "layout_ok p"
    and b: "build_free_list (unat (total_blocks p)) (blocks_start p) 0
              (ucast (block_size p)) mem = (h, mem')"
  shows "list_from mem' h (map (block_addr p) (rev [0..<unat (total_blocks p)]))"
proof -
  let ?N = "unat (total_blocks p)"
  let ?f = "\<lambda>j. blocks_start p + of_nat j * ucast (block_size p)"
  have f: "block_addr p = ?f" by (simp add: block_addr_def fun_eq_iff)
  have nz: "\<forall>j < ?N. ?f j \<noteq> 0"
    using block_addr_nonzero[OF lay] unfolding f by simp
  have d: "\<forall>i < ?N. \<forall>j < ?N. i < j \<longrightarrow> apart (?f i) (?f j)"
    using block_addr_apart[OF lay] unfolding f by simp
  have l0: "list_from mem 0 []" by simp
  have ny: "\<forall>j < ?N. \<forall>y \<in> set []. apart (?f j) y" by simp
  from build_free_list_list[OF b nz d l0 ny]
  show ?thesis unfolding f by (simp add: rev_map)
qed

lemma reset_pool_inv:
  assumes cnt: "counts_inv p" and lay: "layout_ok p"
  shows "\<exists>p'. mempool_reset (Some p) =
            Returned MEMPOOL_OK (Some p') None
              (mempool_internal_lock p @ mempool_internal_unlock p') \<and>
          pool_inv_with p' (rev [0..<unat (total_blocks p)]) \<and> marked p' = {} \<and>
          blocks_start p' = blocks_start p \<and> block_size p' = block_size p \<and>
          total_blocks p' = total_blocks p"
proof -
  let ?N = "unat (total_blocks p)"
  note c = counts_invD[OF cnt]
  obtain h mem' where
    b: "build_free_list ?N (blocks_start p) 0 (ucast (block_size p)) (block_mem p) = (h, mem')"
    by (cases "build_free_list ?N (blocks_start p) 0 (ucast (block_size p)) (block_mem p)")
  define p' where "p' = p
     \<lparr> bitmap_mem := memset_bitmap (bitmap_mem p) (unat (bitmap_bytes p)),
       block_mem := mem', free_list := h, free_blocks := total_blocks p,
       stats := \<lparr> mempool_stats.total_blocks = total_blocks p, used_blocks = 0,
                  mempool_stats.free_blocks = total_blocks p, peak_usage = 0,
                  alloc_count = 0, free_count = 0,
                  mempool_stats.block_size = block_size p \<rparr> \<rparr>"
  have r: "mempool_reset (Some p) =
            Returned MEMPOOL_OK (Some p') None
              (mempool_internal_lock p @ mempool_internal_unlock p')"
    using c(1) b by (simp add: mempool_reset_def Let_def p'_def)
  have g: "blocks_start p' = blocks_start p" "block_size p' = block_size p"
    "total_blocks p' = total_blocks p" "bitmap_bytes p' = bitmap_bytes p"
    "free_blocks p' = total_blocks p" "block_mem p' = mem'" "free_list p' = h"
    by (simp_all add: p'_def)
  have m: "marked p' = {}"
    by (simp add: marked_def p'_def marked_in_memset)
  have cnt': "counts_inv p'" by (rule reset_counts_inv[OF cnt r])
  have lay': "layout_ok p'" using lay by (simp add: layout_ok_cong[OF g(1,2,3)])
  have l: "list_from (block_mem p') (free_list p') (map (block_addr p') (rev [0..<?N]))"
    using block_list[OF lay b] by (simp add: g(6,7) block_addr_cong[OF g(1,2)])
  have "pool_inv_with p' (rev [0..<?N])"
    unfolding pool_inv_with_def
    using cnt' lay' l by (auto simp: m g(3,5))
  with r m g show ?thesis by blast
qed

lemma reset_step_pool_inv:
  assumes inv: "pool_inv_with p js"
    and r: "mempool_reset (Some p) = Returned e (Some p') out calls"
  shows "\<exists>js'. pool_inv_with p' js'"
proof -
  note d = pool_inv_withD[OF inv]
  from reset_pool_inv[OF d(1,2)] r show ?thesis by auto
qed

lemma get_stats_unchanged:
  assumes "mempool_get_stats (Some p) so = Returned e (Some p') out calls"
  shows "p' = p"
  using assms by (auto simp: mempool_get_stats_def split: if_splits)

lemma set_sync_pool_inv:
  assumes inv: "pool_inv_with p js"
    and s: "mempool_set_sync (Some p) l u c = Returned e (Some p') out calls"
  shows "pool_inv_with p' js"
proof -
  note d = pool_inv_withD[OF inv]
  have cnt: "counts_inv p'" by (rule set_sync_counts_inv[OF d(1) s])
  from s have "p' = p \<or> p' = p\<lparr> sync := \<lparr> lock = l, unlock = u, user_ctx = c \<rparr>,
                           sync_enabled := (l \<noteq> 0 \<and> u \<noteq> 0) \<rparr>"
    by (auto simp: mempool_set_sync_def split: if_splits)
  then show ?thesis
  proof
    assume "p' = p" with inv show ?thesis by simp
  next
    assume p': "p' = p\<lparr> sync := \<lparr> lock = l, unlock = u, user_ctx = c \<rparr>,
                           sync_enabled := (l \<noteq> 0 \<and> u \<noteq> 0) \<rparr>"
    have g: "blocks_start p' = blocks_start p" "block_size p' = block_size p"
      "total_blocks p' = total_blocks p" "free_blocks p' = free_blocks p"
      "block_mem p' = block_mem p" "free_list p' = free_list p" "marked p' = marked p"
      by (simp_all add: p' marked_def)
    show ?thesis
      unfolding pool_inv_with_def
      using cnt d(2-7)
      by (simp add: g(3-7) block_addr_cong[OF g(1,2)] layout_ok_cong[OF g(1,2,3)])
  qed
qed

lemma held_is_marked_block:
  assumes inv: "pool_inv_with p js" and h: "held p a"
  shows "\<exists>i. i < unat (total_blocks p) \<and> a = block_addr p i \<and> i \<in> marked p"
proof -
  note d = pool_inv_withD[OF inv]
  note c = counts_invD[OF d(1)]
  from h have rc: "range_check p a" and bc: "boundary_check p a"
    by (simp_all add: held_def)
  from checked_is_block[OF d(2) c(9) rc bc] obtain i where
    i: "i < unat (total_blocks p)" "a = block_addr p i" by blast
  note ix = block_addr_index[OF d(2) i(1)]
  note bx = index_byte_in_bitmap[OF c(9) i(1)]
  from h ix(1) have
    "(bitmap_mem p (unat ((of_nat i :: uint32_t) div 8)) AND bit_mask (of_nat i mod 8)) \<noteq> 0"
    by (simp add: held_def i(2))
  from marked_in_clear(1)[of "of_nat i" "unat (bitmap_bytes p)" "bitmap_mem p", OF bx(2) this]
  have im: "i \<in> marked p" by (simp add: marked_def ix(2))
  with i show ?thesis by blast
qed

lemma write_pool_inv:
  assumes inv: "pool_inv_with p js" and h: "held p a" and k: "k < ucast (block_size p)"
  shows "pool_inv_with (p\<lparr> block_mem := (block_mem p)(a + k := v) \<rparr>) js"
proof -
  note d = pool_inv_withD[OF inv]
  let ?p' = "p\<lparr> block_mem := (block_mem p)(a + k := v) \<rparr>"
  have g: "blocks_start ?p' = blocks_start p" "block_size ?p' = block_size p"
    "total_blocks ?p' = total_blocks p" "free_blocks ?p' = free_blocks p"
    "free_list ?p' = free_list p" "marked ?p' = marked p"
    by (simp_all add: marked_def)
  from held_is_marked_block[OF inv h] obtain i where
    i: "i < unat (total_blocks p)" "a = block_addr p i" "i \<in> marked p" by blast
  have far: "\<forall>x \<in> set (map (block_addr p) js). \<forall>n < 8. x + of_nat n \<noteq> a + k"
  proof (intro ballI allI impI)
    fix x n assume "x \<in> set (map (block_addr p) js)" and n: "n < (8::nat)"
    then obtain j where j: "j \<in> set js" "x = block_addr p j" by auto
    then have jT: "j < unat (total_blocks p)" and ne: "i \<noteq> j" using d(6) i(3) by auto
    from block_bytes_disjoint[OF d(2) i(1) jT ne k n]
    show "x + of_nat n \<noteq> a + k" by (simp add: j(2) i(2))
  qed
  have l: "list_from (block_mem ?p') (free_list ?p') (map (block_addr ?p') js)"
    using d(4) list_from_byte[OF far]
    by (simp add: block_addr_cong[OF g(1,2)])
  show ?thesis
    unfolding pool_inv_with_def
    using write_counts_inv[OF d(1)] d(2,3,5,6,7) l
    by (simp add: g(3,4,6) layout_ok_cong[OF g(1,2,3)])
qed

lemma step_pool_inv:
  "step p p' \<Longrightarrow> \<exists>js. pool_inv_with p js \<Longrightarrow> \<exists>js. pool_inv_with p' js"
proof (induction rule: step.induct)
  case (step_alloc p block e p' out calls)
  then show ?case using alloc_step_pool_inv by blast
next
  case (step_free p blk e p' out' calls)
  then show ?case using free_step_pool_inv by blast
next
  case (step_reset p e p' out' calls)
  then show ?case using reset_step_pool_inv by blast
next
  case (step_get_stats p stats_out e p' out'' calls)
  then show ?case using get_stats_unchanged by blast
next
  case (step_set_sync p lock_fn unlock_fn ctx e p' out' calls)
  then show ?case using set_sync_pool_inv by blast
next
  case (step_write p a v)
  then show ?case using write_pool_inv by blast
qed

lemma pool_inv_matches:
  assumes inv: "pool_inv_with p js"
  shows "free_list_matches_bitmap p"
proof -
  note d = pool_inv_withD[OF inv]
  have inj: "inj_on (block_addr p) (set js)"
    by (rule inj_onI) (use block_addr_inj[OF d(2)] d(6) in auto)
  have dist: "distinct (map (block_addr p) js)"
    using d(5) inj by (simp add: distinct_map)
  have iff: "i \<in> marked p \<longleftrightarrow> block_addr p i \<notin> set (map (block_addr p) js)"
    if i: "i < unat (total_blocks p)" for i
  proof
    assume "i \<in> marked p"
    show "block_addr p i \<notin> set (map (block_addr p) js)"
    proof
      assume "block_addr p i \<in> set (map (block_addr p) js)"
      then obtain j where j: "j \<in> set js" "block_addr p i = block_addr p j" by auto
      then have "j < unat (total_blocks p)" using d(6) by auto
      from block_addr_inj[OF d(2) i this j(2)] j(1) d(6) \<open>i \<in> marked p\<close> show False by auto
    qed
  next
    assume "block_addr p i \<notin> set (map (block_addr p) js)"
    then have "i \<notin> set js" by auto
    with d(6) i show "i \<in> marked p" by auto
  qed
  show ?thesis
    unfolding free_list_matches_bitmap_def
    using d(4) iff d(7) dist
    by (intro exI[of _ "map (block_addr p) js"]) simp
qed

section \<open>The search loop of the initialisation\<close>

lemma plan_loop_unfold:
  "plan_loop pbs absz al n b0 o0 =
     (if 0 < n then
        (if (n + 7) div 8 + bitmap_pad al ((n + 7) div 8) + n * absz \<le> pbs
         then (n, (n + 7) div 8, (n + 7) div 8 + bitmap_pad al ((n + 7) div 8), True)
         else plan_loop pbs absz al (n - 1) ((n + 7) div 8)
                ((n + 7) div 8 + bitmap_pad al ((n + 7) div 8)))
      else (n, b0, o0, False))"
  by (subst plan_loop.simps) (simp add: Let_def bitmap_pad_def)

lemma plan_loop_result:
  "plan_loop pbs absz al n b0 o0 = (m, bb, bo, True) \<Longrightarrow>
     0 < m \<and> m \<le> n \<and> bb = (m + 7) div 8 \<and> bo = bb + bitmap_pad al bb \<and>
     bo + m * absz \<le> pbs"
proof (induction "unat n" arbitrary: n b0 o0 rule: less_induct)
  case less
  show ?case
  proof (cases "0 < n")
    case False
    with less.prems show ?thesis by (simp add: plan_loop_unfold)
  next
    case True
    let ?bb = "(n + 7) div 8"
    let ?bo = "?bb + bitmap_pad al ?bb"
    show ?thesis
    proof (cases "?bo + n * absz \<le> pbs")
      case le: True
      have e: "plan_loop pbs absz al n b0 o0 = (n, ?bb, ?bo, True)"
        by (subst plan_loop_unfold) (simp add: True le)
      from e less.prems have m: "m = n" and bb: "bb = ?bb" and bo: "bo = ?bo"
        by simp_all
      show ?thesis unfolding m bb bo using True le by simp
    next
      case gt: False
      have e: "plan_loop pbs absz al n b0 o0 = plan_loop pbs absz al (n - 1) ?bb ?bo"
        by (subst plan_loop_unfold) (simp add: True gt)
      from e less.prems have r: "plan_loop pbs absz al (n - 1) ?bb ?bo = (m, bb, bo, True)"
        by simp
      have "n \<noteq> 0" using True by simp
      then have u: "unat (n - 1) = unat n - 1" and pos: "0 < unat n"
        by (simp_all add: unat_minus_one unat_gt_0)
      have ih: "0 < m \<and> m \<le> n - 1 \<and> bb = (m + 7) div 8 \<and> bo = bb + bitmap_pad al bb \<and>
                bo + m * absz \<le> pbs"
        by (rule less.hyps[OF _ r]) (use u pos in simp)
      have "n - 1 \<le> n" using u by (simp add: word_le_nat_alt)
      with ih show ?thesis by (meson order_trans)
    qed
  qed
qed

lemma init_okD:
  assumes "mempool_init sb sbs pb pbs bs al po old = Returned MEMPOOL_OK (Some p) out calls"
  shows "\<exists>n bb bo.
     pb \<noteq> 0 \<and> align_up bs al \<noteq> 0 \<and>
     plan_loop pbs (align_up bs al) al (pbs div align_up bs al) 0 0 = (n, bb, bo, True) \<and>
     \<not> n > UINT32_MAX \<and> \<not> bb > UINT32_MAX \<and>
     blocks_start p = pb + bo \<and> block_size p = ucast (align_up bs al) \<and>
     total_blocks p = ucast n \<and> bitmap_bytes p = ucast bb \<and>
     bitmap_mem p = memset_bitmap (bitmap_mem old) (unat bb) \<and>
     build_free_list (unat (ucast n :: uint32_t)) (pb + bo) 0 (align_up bs al) (block_mem old)
       = (free_list p, block_mem p)"
  using assms
  by (auto simp: mempool_init_def Let_def memset_pool_def split: if_splits prod.splits)

lemma bitmap_pad_le: "unat (bitmap_pad al bb) \<le> unat al"
proof (cases "1 < al \<and> (bb AND (al - 1)) \<noteq> 0")
  case False
  then show ?thesis by (auto simp: bitmap_pad_def Let_def)
next
  case True
  let ?md = "bb AND (al - 1)"
  have "?md \<le> al - 1" by (rule word_and_le1)
  moreover have "al \<noteq> 0" using True by auto
  ultimately have "unat ?md \<le> unat al - 1"
    by (simp add: word_le_nat_alt unat_minus_one)
  then have le: "?md \<le> al" by (simp add: word_le_nat_alt)
  have "unat (al - ?md) = unat al - unat ?md" using le by (simp add: unat_sub)
  then show ?thesis using True by (simp add: bitmap_pad_def Let_def)
qed

lemma init_pool_inv:
  assumes i: "mempool_init sb sbs pb pbs bs al po old = Returned MEMPOOL_OK (Some p) out calls"
    and fit: "unat (align_up bs al) < 2 ^ 32"
    and ge8: "8 \<le> unat (align_up bs al)"
    and hal: "unat al \<le> 2 ^ 32"
    and hsz: "unat pbs < 2 ^ 63"
    and haddr: "unat pb + unat pbs \<le> 2 ^ 64"
  shows "pool_inv_with p (rev [0..<unat (total_blocks p)])"
    and "marked p = {}"
    and "unat (block_size p) = unat (align_up bs al)"
    and "unat (blocks_start p) + unat (total_blocks p) * unat (block_size p)
           \<le> unat pb + unat pbs"
proof -
  let ?A = "align_up bs al"
  from init_okD[OF i] obtain n bb bo where
    pb0: "pb \<noteq> 0" and A0: "?A \<noteq> 0"
    and pl: "plan_loop pbs ?A al (pbs div ?A) 0 0 = (n, bb, bo, True)"
    and n32: "\<not> n > UINT32_MAX" and bb32: "\<not> bb > UINT32_MAX"
    and f: "blocks_start p = pb + bo" "block_size p = ucast ?A"
       "total_blocks p = ucast n" "bitmap_bytes p = ucast bb"
       "bitmap_mem p = memset_bitmap (bitmap_mem old) (unat bb)"
    and bfl: "build_free_list (unat (ucast n :: uint32_t)) (pb + bo) 0 ?A (block_mem old)
       = (free_list p, block_mem p)"
    by blast
  from plan_loop_result[OF pl] have
    r: "0 < n" "n \<le> pbs div ?A" "bb = (n + 7) div 8" "bo = bb + bitmap_pad al bb"
       "bo + n * ?A \<le> pbs"
    by blast+
  have un: "unat n \<le> 4294967295"
    using n32 by (simp add: UINT32_MAX_def word_le_nat_alt not_less)
  have npos: "0 < unat n" using r(1) by (simp add: word_less_nat_alt)
  have Apos: "0 < unat ?A" using A0 by (simp add: unat_gt_0)
  have "unat n \<le> unat pbs div unat ?A"
    using r(2) by (simp add: word_le_nat_alt unat_div)
  then have nA: "unat n * unat ?A \<le> unat pbs"
    using Apos by (simp add: less_eq_div_iff_mult_less_eq)
  have mA: "unat (n * ?A) = unat n * unat ?A"
    using nA hsz by (simp add: unat_mult_lem[THEN iffD1])
  have ubb: "unat bb = (unat n + 7) div 8"
    using un by (simp add: r(3) unat_div unat_word_ariths)
  have padle: "unat (bitmap_pad al bb) \<le> 2 ^ 32"
    using bitmap_pad_le[of al bb] hal by simp
  have ubo: "unat bo = unat bb + unat (bitmap_pad al bb)"
    unfolding r(4) using ubb un padle by (intro unat_add_lem[THEN iffD1]) simp
  have bole: "unat bo \<le> 2 ^ 30 + 2 ^ 32" using ubo ubb un padle by simp
  have ureq: "unat (bo + n * ?A) = unat bo + unat n * unat ?A"
    using bole nA hsz by (simp only: mA[symmetric]) (intro unat_add_lem[THEN iffD1], simp add: mA)
  have req: "unat bo + unat n * unat ?A \<le> unat pbs"
    using r(5) by (simp add: word_le_nat_alt ureq)
  have AleN: "unat ?A \<le> unat n * unat ?A" using npos by simp
  have bolt: "unat bo < unat pbs" using req AleN Apos by linarith
  have ustart: "unat (pb + bo) = unat pb + unat bo"
    using bolt haddr by (intro unat_add_lem[THEN iffD1]) simp
  have uN: "unat (ucast n :: uint32_t) = unat n" using un by (simp add: unat_ucast_down)
  have uB: "unat (ucast ?A :: uint32_t) = unat ?A" using fit by (simp add: unat_ucast_down)
  have stride: "(ucast (ucast ?A :: uint32_t) :: size_t) = ?A"
    by (simp add: word_unat_eq_iff unat_ucast_up uB)
  have pbpos: "0 < unat pb" using pb0 by (simp add: unat_gt_0)
  have lay: "layout_ok p"
    unfolding layout_ok_def
    using ge8 pbpos req haddr
    by (simp add: f(1,2,3) uN uB ustart unat_gt_0[symmetric] unat_eq_0[symmetric]
          del: unat_eq_0 unat_gt_0)
  show "unat (block_size p) = unat ?A" by (simp add: f(2) uB)
  show "unat (blocks_start p) + unat (total_blocks p) * unat (block_size p)
           \<le> unat pb + unat pbs"
    using req by (simp add: f(1,2,3) uN uB ustart)
  have cnt: "counts_inv p" by (rule init_counts_inv[OF i])
  have ub: "unat (ucast bb :: uint32_t) = unat bb"
    using ubb un by (simp add: unat_ucast_down)
  show m: "marked p = {}"
    by (simp add: marked_def f(4,5) ub marked_in_memset)
  have b': "build_free_list (unat (total_blocks p)) (blocks_start p) 0
              (ucast (block_size p)) (block_mem old) = (free_list p, block_mem p)"
    using bfl by (simp add: f(1,2,3) stride)
  have l: "list_from (block_mem p) (free_list p)
             (map (block_addr p) (rev [0..<unat (total_blocks p)]))"
    by (rule block_list[OF lay b'])
  have fb: "free_blocks p = total_blocks p"
    using counts_invD(2,3,4,8)[OF cnt] i
    by (auto simp: mempool_init_def Let_def split: if_splits prod.splits)
  show "pool_inv_with p (rev [0..<unat (total_blocks p)])"
    unfolding pool_inv_with_def
    using cnt lay l by (auto simp: m fb)
qed

section \<open>Powers of two and rounding up\<close>

lemma nat_and_pred_zero:
  fixes n :: nat
  shows "0 < n \<Longrightarrow> n AND (n - 1) = 0 \<Longrightarrow> \<exists>k. n = 2 ^ k"
proof (induction n rule: less_induct)
  case (less n)
  show ?case
  proof (cases "n = 1")
    case True
    then have "n = 2 ^ 0" by simp
    then show ?thesis by blast
  next
    case False
    with less.prems(1) have n2: "2 \<le> n" by simp
    have "n AND (n - 1) = of_bool (odd n \<and> odd (n - 1)) + 2 * ((n div 2) AND ((n - 1) div 2))"
      by (rule and_nat_rec)
    with less.prems(2) have h: "(n div 2) AND ((n - 1) div 2) = 0" by simp
    show ?thesis
    proof (cases "even n")
      case True
      then have e: "(n - 1) div 2 = n div 2 - 1" using n2 by (auto elim!: evenE)
      have pos: "0 < n div 2" using n2 by simp
      have lt: "n div 2 < n" using n2 by simp
      from less.IH[OF lt pos] h e obtain k where "n div 2 = 2 ^ k" by auto
      then have "n = 2 ^ Suc k" using True by auto
      then show ?thesis by blast
    next
      case False
      then have "(n - 1) div 2 = n div 2" by (auto elim!: oddE)
      with h have "n div 2 = 0" by simp
      with n2 show ?thesis by simp
    qed
  qed
qed

lemma unat_2p:
  assumes "k < 64"
  shows "unat (2 ^ k :: size_t) = 2 ^ k"
proof -
  have lt: "(2::nat) ^ k < 2 ^ 64"
    by (rule power_strict_increasing) (use assms in simp_all)
  have "(2 ^ k :: size_t) = of_nat (2 ^ k)" by simp
  then have "unat (2 ^ k :: size_t) = 2 ^ k mod 2 ^ 64"
    by (simp only: unat_of_nat) simp
  with lt show ?thesis by simp
qed

lemma is_power_of_twoD:
  assumes "is_power_of_two al"
  shows "\<exists>k < 64. al = 2 ^ k"
proof -
  from assms have nz: "al \<noteq> 0" and z: "al AND (al - 1) = 0"
    by (auto simp: is_power_of_two_def split: if_splits)
  have pos: "0 < unat al" using nz by (simp add: unat_gt_0)
  have "unat (al AND (al - 1)) = unat al AND (unat al - 1)"
    using nz by (simp add: unsigned_and_eq unat_minus_one)
  with z have "unat al AND (unat al - 1) = 0" by simp
  from nat_and_pred_zero[OF pos this] obtain k where k: "unat al = 2 ^ k" by blast
  have "unat al < 2 ^ 64" using unsigned_less[of al, where 'a=nat] by simp
  with k have "(2::nat) ^ k < 2 ^ 64" by simp
  then have k64: "k < 64" using power_less_imp_less_exp[of 2 k 64] by simp
  have "al = 2 ^ k" using k k64 by (simp add: word_unat_eq_iff unat_2p)
  with k64 show ?thesis by blast
qed

lemma pow2_minus_one: "(2 ^ k :: size_t) - 1 = mask k"
  by (simp add: mask_eq_exp_minus_1)

lemma unat_and_mask: "unat ((x :: size_t) AND mask k) = unat x mod 2 ^ k"
proof -
  have "x AND mask k = take_bit k x" by (simp add: take_bit_eq_mask)
  then have "unat (x AND mask k) = take_bit k (unat x)"
    by (simp only: unsigned_take_bit_eq)
  then show ?thesis by (simp add: take_bit_eq_mod)
qed

lemma and_not_mask_eq:
  fixes x :: size_t
  shows "unat (x AND NOT (mask k)) = (unat x div 2 ^ k) * 2 ^ k"
proof -
  have "x AND NOT (mask k) = push_bit k (drop_bit k x)"
    by (rule bit_eqI) (auto simp: bit_simps)
  moreover have "unat (push_bit k (drop_bit k x)) = (unat x div 2 ^ k) * 2 ^ k"
  proof -
    have d: "unat (drop_bit k x) = unat x div 2 ^ k"
      by (simp only: unat_drop_bit_eq) (simp add: drop_bit_eq_div)
    have "(unat x div 2 ^ k) * 2 ^ k \<le> unat x" by simp
    also have "\<dots> < 2 ^ 64" using unsigned_less[of x, where 'a=nat] by simp
    finally have lt: "(unat x div 2 ^ k) * 2 ^ k < 2 ^ 64" .
    have "unat (push_bit k (drop_bit k x)) = unat (drop_bit k x * 2 ^ k)"
      by (simp add: push_bit_eq_mult)
    also have "\<dots> = (unat (drop_bit k x) * unat (2 ^ k :: size_t)) mod 2 ^ 64"
      by (simp add: unat_word_ariths(2))
    finally show ?thesis
      using lt d
      by (cases "k < 64") (simp_all add: unat_2p)
  qed
  ultimately show ?thesis by simp
qed

lemma unat_mask64: "k < 64 \<Longrightarrow> unat (mask k :: size_t) = 2 ^ k - 1"
proof -
  assume k: "k < 64"
  have "(mask k :: size_t) = 2 ^ k - 1" by (simp add: mask_eq_exp_minus_1)
  moreover have "(2 ^ k :: size_t) \<noteq> 0" using unat_2p[OF k] by (metis power_not_zero unat_0 zero_neq_numeral)
  ultimately show ?thesis using unat_2p[OF k] by (simp add: unat_minus_one)
qed

lemma align_up_pow2:
  assumes k: "k < 64"
  shows "unat (align_up x (2 ^ k)) =
           (if unat x + 2 ^ k - 1 < 2 ^ 64 then spec_aligned_size (unat x) (2 ^ k) else
              ((unat x + 2 ^ k - 1 - 2 ^ 64) div 2 ^ k) * 2 ^ k)"
proof -
  have p: "(1::nat) \<le> 2 ^ k" by simp
  have a: "align_up x (2 ^ k) = (x + mask k) AND NOT (mask k)"
    by (simp add: align_up_def Let_def mask_eq_exp_minus_1)
  have s: "unat (x + mask k) = (unat x + (2 ^ k - 1)) mod 2 ^ 64"
    by (simp add: unat_word_ariths(1) unat_mask64[OF k])
  have x64: "unat x < 2 ^ 64" using unsigned_less[of x, where 'a=nat] by simp
  have m64: "(2::nat) ^ k - 1 < 2 ^ 64"
    using power_strict_increasing[of k 64 "2::nat"] k by simp
  show ?thesis
  proof (cases "unat x + 2 ^ k - 1 < 2 ^ 64")
    case True
    then have "unat (x + mask k) = unat x + 2 ^ k - 1" using s p by simp
    then show ?thesis using True by (simp add: a and_not_mask_eq spec_aligned_size_def)
  next
    case False
    then have "(unat x + (2 ^ k - 1)) mod 2 ^ 64 = unat x + (2 ^ k - 1) - 2 ^ 64"
      using x64 m64 by (simp add: mod_if)
    then have "unat (x + mask k) = unat x + 2 ^ k - 1 - 2 ^ 64" using s p by simp
    then show ?thesis using False by (simp add: a and_not_mask_eq)
  qed
qed

lemma align_up_nonzero:
  assumes k: "k < 64" and nz: "align_up x (2 ^ k) \<noteq> 0"
  shows "unat x + 2 ^ k - 1 < 2 ^ 64"
    and "unat (align_up x (2 ^ k)) = spec_aligned_size (unat x) (2 ^ k)"
proof -
  have x64: "unat x < 2 ^ 64" using unsigned_less[of x, where 'a=nat] by simp
  show lt: "unat x + 2 ^ k - 1 < 2 ^ 64"
  proof (rule ccontr)
    assume o: "\<not> unat x + 2 ^ k - 1 < 2 ^ 64"
    then have "unat x + 2 ^ k - 1 - 2 ^ 64 < 2 ^ k" using x64 by simp
    then have "(unat x + 2 ^ k - 1 - 2 ^ 64) div 2 ^ k = 0" by simp
    then have "unat (align_up x (2 ^ k)) = 0"
      using o by (simp add: align_up_pow2[OF k])
    with nz show False by (simp add: unat_eq_0)
  qed
  show "unat (align_up x (2 ^ k)) = spec_aligned_size (unat x) (2 ^ k)"
    using lt by (simp add: align_up_pow2[OF k])
qed

lemma aligned_size_ge:
  assumes "0 < a" and "0 < x"
  shows "a \<le> spec_aligned_size x a" and "x \<le> spec_aligned_size x a"
proof -
  have "1 \<le> (x + a - 1) div a"
    using assms by (simp add: Suc_le_eq div_greater_zero_iff)
  then show "a \<le> spec_aligned_size x a"
    unfolding spec_aligned_size_def by (metis mult.commute mult_le_mono2 nat_mult_1_right)
  have "x + a - 1 < ((x + a - 1) div a) * a + a"
    using assms by (metis add.commute dividend_less_div_times mult.commute)
  then show "x \<le> spec_aligned_size x a"
    unfolding spec_aligned_size_def using assms by linarith
qed

lemma bitmap_pad_pow2:
  assumes k: "k < 64"
  shows "unat (bitmap_pad (2 ^ k) bb) = spec_pad (2 ^ k) (unat bb)"
proof (cases "k = 0")
  case True
  then show ?thesis by (simp add: bitmap_pad_def spec_pad_def)
next
  case False
  then have "(2::nat) ^ 0 < 2 ^ k" by (intro power_strict_increasing) simp_all
  then have "(1::nat) < 2 ^ k" by simp
  then have g1: "(1 :: size_t) < 2 ^ k"
    using unat_2p[OF k] by (simp add: word_less_nat_alt)
  let ?md = "bb AND mask k"
  have umd: "unat ?md = unat bb mod 2 ^ k" by (rule unat_and_mask)
  have lt: "unat ?md < 2 ^ k" by (simp add: umd)
  show ?thesis
  proof (cases "?md = 0")
    case True
    then have "unat bb mod 2 ^ k = 0" using umd by simp
    then show ?thesis
      using True g1 by (simp add: bitmap_pad_def Let_def spec_pad_def mask_eq_exp_minus_1)
  next
    case nz: False
    then have pos: "0 < unat bb mod 2 ^ k" using umd by (simp add: unat_gt_0[symmetric] del: unat_gt_0)
    have le: "?md \<le> 2 ^ k" using lt unat_2p[OF k] by (simp add: word_le_nat_alt)
    have "unat (2 ^ k - ?md) = 2 ^ k - unat bb mod 2 ^ k"
      using le by (simp add: unat_sub unat_2p[OF k] umd)
    moreover have "spec_pad (2 ^ k) (unat bb) = 2 ^ k - unat bb mod 2 ^ k"
      using pos by (simp add: spec_pad_def)
    ultimately show ?thesis
      using nz g1 by (simp add: bitmap_pad_def Let_def mask_eq_exp_minus_1)
  qed
qed

section \<open>The search loop finds the largest block count\<close>

lemma pad_to_le: "0 < a \<Longrightarrow> spec_pad a e \<le> a"
  by (simp add: spec_pad_def)

lemma plan_cond_nat:
  assumes k: "k \<le> 62"
    and nA: "unat n * unat absz \<le> unat pbs"
    and nle: "unat n \<le> unat pbs"
    and sz: "unat pbs < 2 ^ 63"
  shows "((n + 7) div 8 + bitmap_pad (2 ^ k) ((n + 7) div 8) + n * absz \<le> pbs)
           \<longleftrightarrow> spec_needed (unat absz) (2 ^ k) (unat n) \<le> unat pbs"
proof -
  have k64: "k < 64" using k by simp
  let ?bb = "(n + 7) div 8"
  have "unat (n + 7) = unat n + unat (7 :: size_t)"
    using nle sz by (intro unat_add_lem[THEN iffD1]) simp
  then have n7: "unat (n + 7) = unat n + 7" by simp
  have ubb: "unat ?bb = (unat n + 7) div 8" by (simp add: unat_div n7)
  have bble: "unat ?bb \<le> 2 ^ 60" using ubb nle sz by simp
  have upad: "unat (bitmap_pad (2 ^ k) ?bb) = spec_pad (2 ^ k) (unat ?bb)"
    by (rule bitmap_pad_pow2[OF k64])
  have "(2::nat) ^ k \<le> 2 ^ 62" using k by (intro power_increasing) simp_all
  then have padle: "spec_pad (2 ^ k) (unat ?bb) \<le> 2 ^ 62"
    using pad_to_le[of "2 ^ k" "unat ?bb"] by simp
  have ubo: "unat (?bb + bitmap_pad (2 ^ k) ?bb) = unat ?bb + spec_pad (2 ^ k) (unat ?bb)"
    using bble padle by (simp only: upad[symmetric]) (intro unat_add_lem[THEN iffD1], simp add: upad)
  have mA: "unat (n * absz) = unat n * unat absz"
    using nA sz by (intro unat_mult_lem[THEN iffD1]) simp
  have "unat (?bb + bitmap_pad (2 ^ k) ?bb + n * absz)
          = unat (?bb + bitmap_pad (2 ^ k) ?bb) + unat (n * absz)"
    using bble padle nA sz by (intro unat_add_lem[THEN iffD1]) (simp add: ubo mA)
  then have "unat (?bb + bitmap_pad (2 ^ k) ?bb + n * absz) = spec_needed (unat absz) (2 ^ k) (unat n)"
    by (simp add: ubo mA ubb spec_needed_def)
  then show ?thesis by (simp add: word_le_nat_alt)
qed

lemma plan_loop_nat:
  assumes k: "k \<le> 62" and Apos: "0 < unat absz" and sz: "unat pbs < 2 ^ 63"
  shows "unat n * unat absz \<le> unat pbs \<Longrightarrow>
     plan_loop pbs absz (2 ^ k) n b0 o0 = (m, bb, bo, found) \<Longrightarrow>
       (found \<longrightarrow> spec_fits (unat absz) (2 ^ k) (unat pbs) (unat m) \<and> unat m \<le> unat n \<and>
            (\<forall>j. unat m < j \<and> j \<le> unat n \<longrightarrow> \<not> spec_needed (unat absz) (2 ^ k) j \<le> unat pbs)) \<and>
       (\<not> found \<longrightarrow>
            (\<forall>j. 1 \<le> j \<and> j \<le> unat n \<longrightarrow> \<not> spec_needed (unat absz) (2 ^ k) j \<le> unat pbs))"
proof (induction "unat n" arbitrary: n b0 o0 rule: less_induct)
  case less
  let ?A = "unat absz" and ?S = "unat pbs"
  show ?case
  proof (cases "0 < n")
    case False
    then have "n = 0" by (simp add: word_gt_0)
    with less.prems(2) show ?thesis by (simp add: plan_loop_unfold)
  next
    case True
    let ?bb = "(n + 7) div 8"
    let ?bo = "?bb + bitmap_pad (2 ^ k) ?bb"
    have npos: "0 < unat n" using True by (simp add: word_less_nat_alt)
    have "unat n \<le> unat n * ?A" using Apos by (cases ?A) simp_all
    then have nle: "unat n \<le> ?S" using less.prems(1) by (rule order_trans)
    note cond = plan_cond_nat[OF k less.prems(1) nle sz]
    show ?thesis
    proof (cases "?bo + n * absz \<le> pbs")
      case le: True
      have e: "plan_loop pbs absz (2 ^ k) n b0 o0 = (n, ?bb, ?bo, True)"
        by (subst plan_loop_unfold) (simp add: True le)
      from e less.prems(2) have m: "m = n" and f: "found" by simp_all
      have "spec_fits ?A (2 ^ k) ?S (unat n)"
        using cond le npos by (simp add: spec_fits_def)
      then show ?thesis by (simp add: m f)
    next
      case gt: False
      have e: "plan_loop pbs absz (2 ^ k) n b0 o0 = plan_loop pbs absz (2 ^ k) (n - 1) ?bb ?bo"
        by (subst plan_loop_unfold) (simp add: True gt)
      from e less.prems(2) have r: "plan_loop pbs absz (2 ^ k) (n - 1) ?bb ?bo = (m, bb, bo, found)"
        by simp
      have "n \<noteq> 0" using True by simp
      then have u: "unat (n - 1) = unat n - 1" by (simp add: unat_minus_one)
      have lt: "unat (n - 1) < unat n" using u npos by simp
      have "unat (n - 1) * ?A \<le> unat n * ?A" using u by (intro mult_le_mono1) simp
      then have pre: "unat (n - 1) * ?A \<le> ?S" using less.prems(1) by (rule order_trans)
      note ih = less.hyps[OF lt pre r]
      have nn: "\<not> spec_needed ?A (2 ^ k) (unat n) \<le> ?S" using cond gt by simp
      have step: "j \<le> unat n \<Longrightarrow> j \<le> unat (n - 1) \<or> j = unat n" for j
        using u by auto
      show ?thesis
      proof (cases found)
        case f: True
        from ih f have a: "spec_fits ?A (2 ^ k) ?S (unat m)" and b: "unat m \<le> unat (n - 1)"
          and c: "\<forall>j. unat m < j \<and> j \<le> unat (n - 1) \<longrightarrow> \<not> spec_needed ?A (2 ^ k) j \<le> ?S"
          by blast+
        have b': "unat m \<le> unat n" using b u by simp
        have c': "\<forall>j. unat m < j \<and> j \<le> unat n \<longrightarrow> \<not> spec_needed ?A (2 ^ k) j \<le> ?S"
          using c nn step by blast
        show ?thesis using f a b' c' by simp
      next
        case nf: False
        from ih nf have c: "\<forall>j. 1 \<le> j \<and> j \<le> unat (n - 1) \<longrightarrow> \<not> spec_needed ?A (2 ^ k) j \<le> ?S"
          by blast
        have "\<forall>j. 1 \<le> j \<and> j \<le> unat n \<longrightarrow> \<not> spec_needed ?A (2 ^ k) j \<le> ?S"
          using c nn step by blast
        then show ?thesis using nf by simp
      qed
    qed
  qed
qed

lemma needed_ge: "N * A \<le> spec_needed A a N"
  by (simp add: spec_needed_def)

lemma above_max_blocks:
  assumes "0 < A" and "S div A < M"
  shows "\<not> spec_needed A a M \<le> S"
proof -
  have "S < (S div A + 1) * A"
    using assms(1) by (metis Suc_eq_plus1 dividend_less_div_times mult.commute mult_Suc)
  also have "\<dots> \<le> M * A" using assms(2) by (intro mult_le_mono1) simp
  also have "\<dots> \<le> spec_needed A a M" by (rule needed_ge)
  finally show ?thesis by simp
qed

lemma plan_summary:
  assumes k: "k < 64"
    and noovf: "unat bs + 2 ^ k - 1 < 2 ^ 64"
    and bs8: "8 \<le> unat bs"
    and sz: "unat pbs < 2 ^ 63"
    and n0: "pbs div align_up bs (2 ^ k) \<noteq> 0"
    and pl: "plan_loop pbs (align_up bs (2 ^ k)) (2 ^ k) (pbs div align_up bs (2 ^ k)) 0 0
               = (m, bb, bo, found)"
  shows "found \<longrightarrow>
           spec_fits (spec_aligned_size (unat bs) (2 ^ k)) (2 ^ k) (unat pbs) (unat m) \<and>
           (\<forall>M. spec_fits (spec_aligned_size (unat bs) (2 ^ k)) (2 ^ k) (unat pbs) M \<longrightarrow> M \<le> unat m)"
    and "\<not> found \<longrightarrow> (\<forall>M. \<not> spec_fits (spec_aligned_size (unat bs) (2 ^ k)) (2 ^ k) (unat pbs) M)"
proof -
  let ?Aw = "align_up bs (2 ^ k)"
  let ?A = "spec_aligned_size (unat bs) (2 ^ k)" and ?S = "unat pbs"
  have uA: "unat ?Aw = ?A" using noovf by (simp add: align_up_pow2[OF k])
  have bpos: "0 < unat bs" using bs8 by simp
  have ge: "2 ^ k \<le> ?A" "unat bs \<le> ?A"
    using aligned_size_ge[of "2 ^ k" "unat bs"] bpos by simp_all
  have Apos: "0 < ?A" using ge(2) bpos by simp
  have un0: "unat (pbs div ?Aw) = ?S div ?A" by (simp add: unat_div uA)
  have n0pos: "0 < ?S div ?A" using n0 un0 by (simp add: unat_gt_0[symmetric] del: unat_gt_0)
  then have AleS: "?A \<le> ?S" by (simp add: div_greater_zero_iff)
  have "(2::nat) ^ k < 2 ^ 63" using ge(1) AleS sz by linarith
  then have "k < 63" using power_less_imp_less_exp[of 2 k 63] by simp
  then have k62: "k \<le> 62" by simp
  have pre: "unat (pbs div ?Aw) * unat ?Aw \<le> ?S" by (simp add: un0 uA)
  have Aw: "0 < unat ?Aw" using Apos uA by simp
  note L = plan_loop_nat[OF k62 Aw sz pre pl, unfolded uA un0]
  have above: "\<not> spec_needed ?A (2 ^ k) M \<le> ?S" if "?S div ?A < M" for M
    by (rule above_max_blocks[OF Apos that])
  show "found \<longrightarrow> spec_fits ?A (2 ^ k) ?S (unat m) \<and> (\<forall>M. spec_fits ?A (2 ^ k) ?S M \<longrightarrow> M \<le> unat m)"
  proof
    assume f: found
    from L f have a: "spec_fits ?A (2 ^ k) ?S (unat m)"
      and c: "\<forall>j. unat m < j \<and> j \<le> ?S div ?A \<longrightarrow> \<not> spec_needed ?A (2 ^ k) j \<le> ?S"
      by blast+
    have "M \<le> unat m" if fm: "spec_fits ?A (2 ^ k) ?S M" for M
    proof (rule ccontr)
      assume "\<not> M \<le> unat m"
      then have gt: "unat m < M" by simp
      from fm have nd: "spec_needed ?A (2 ^ k) M \<le> ?S" by (simp add: spec_fits_def)
      show False
      proof (cases "M \<le> ?S div ?A")
        case True with c gt nd show False by blast
      next
        case False with above[of M] nd show False by simp
      qed
    qed
    with a show "spec_fits ?A (2 ^ k) ?S (unat m) \<and> (\<forall>M. spec_fits ?A (2 ^ k) ?S M \<longrightarrow> M \<le> unat m)"
      by blast
  qed
  show "\<not> found \<longrightarrow> (\<forall>M. \<not> spec_fits ?A (2 ^ k) ?S M)"
  proof (intro impI allI)
    fix M assume nf: "\<not> found"
    from L nf have c: "\<forall>j. 1 \<le> j \<and> j \<le> ?S div ?A \<longrightarrow> \<not> spec_needed ?A (2 ^ k) j \<le> ?S"
      by blast
    show "\<not> spec_fits ?A (2 ^ k) ?S M"
    proof (cases "M \<le> ?S div ?A")
      case True with c show ?thesis by (auto simp: spec_fits_def)
    next
      case False with above[of M] show ?thesis by (simp add: spec_fits_def)
    qed
  qed
qed

section \<open>Block sizes that fit 32 bits\<close>

text \<open>
  Where the aligned block size fits the field \<open>block_size\<close>, the stride of
  \<^verbatim>\<open>mempool_init\<close> and the stride of the other operations agree, and the free list and
  the bitmap stay in step from \<^verbatim>\<open>mempool_init\<close> on, through every step.
\<close>

lemma init_valid_args:
  assumes "mempool_init sb sbs pb pbs bs al po old = Returned MEMPOOL_OK (Some p) out calls"
  shows "is_power_of_two al" "\<not> bs < sizeof_free_node_t" "align_up bs al \<noteq> 0"
  using assms
  by (auto simp: mempool_init_def Let_def split: if_splits prod.splits)

lemma init_alignment_le:
  assumes i: "mempool_init sb sbs pb pbs bs al po old = Returned MEMPOOL_OK (Some p) out calls"
  shows "unat al \<le> unat (align_up bs al)"
proof -
  note v = init_valid_args[OF i]
  from is_power_of_twoD[OF v(1)] obtain k where k: "k < 64" "al = 2 ^ k" by blast
  have "8 \<le> unat bs" using v(2) by (simp add: sizeof_free_node_t_def word_less_nat_alt)
  then have bpos: "0 < unat bs" by simp
  have "unat (align_up bs (2 ^ k)) = spec_aligned_size (unat bs) (2 ^ k)"
    using align_up_nonzero(2)[OF k(1)] v(3) k(2) by simp
  moreover have "2 ^ k \<le> spec_aligned_size (unat bs) (2 ^ k)"
    using aligned_size_ge(1)[of "2 ^ k" "unat bs"] bpos by simp
  ultimately show ?thesis by (simp add: k(2) unat_2p[OF k(1)])
qed

lemma init_aligned_ge:
  assumes i: "mempool_init sb sbs pb pbs bs al po old = Returned MEMPOOL_OK (Some p) out calls"
  shows "8 \<le> unat (align_up bs al)"
proof -
  note v = init_valid_args[OF i]
  from is_power_of_twoD[OF v(1)] obtain k where k: "k < 64" "al = 2 ^ k" by blast
  have b8: "8 \<le> unat bs" using v(2) by (simp add: sizeof_free_node_t_def word_less_nat_alt)
  have "unat (align_up bs (2 ^ k)) = spec_aligned_size (unat bs) (2 ^ k)"
    using align_up_nonzero(2)[OF k(1)] v(3) k(2) by simp
  moreover have "unat bs \<le> spec_aligned_size (unat bs) (2 ^ k)"
    using aligned_size_ge(2)[of "2 ^ k" "unat bs"] b8 by simp
  ultimately show ?thesis using b8 by (simp add: k(2))
qed

lemma init_total_blocks_pos:
  assumes i: "mempool_init sb sbs pb pbs bs al po old = Returned MEMPOOL_OK (Some p) out calls"
  shows "0 < unat (total_blocks p)"
proof -
  from init_okD[OF i] obtain n bb bo where
    pl: "plan_loop pbs (align_up bs al) al (pbs div align_up bs al) 0 0 = (n, bb, bo, True)"
    and n32: "\<not> n > UINT32_MAX" and t: "total_blocks p = ucast n"
    by blast
  from plan_loop_result[OF pl] have "0 < n" by blast
  then have npos: "0 < unat n" by (simp add: word_less_nat_alt)
  have "unat n \<le> 4294967295"
    using n32 by (simp add: UINT32_MAX_def word_le_nat_alt not_less)
  then have "unat (ucast n :: uint32_t) = unat n" by (simp add: unat_ucast_down)
  then show ?thesis using npos t by simp
qed

lemma init_fits_pool_inv:
  assumes i: "mempool_init sb sbs pb pbs bs al po old = Returned MEMPOOL_OK (Some p) out calls"
    and fit: "block_size_fits pb pbs bs al"
  shows "pool_inv_with p (rev [0..<unat (total_blocks p)])"
    and "marked p = {}"
proof -
  from fit have f: "unat (align_up bs al) < 2 ^ 32" "unat pbs < 2 ^ 63"
    "unat pb + unat pbs \<le> 2 ^ 64"
    by (simp_all add: block_size_fits_def)
  have hal: "unat al \<le> 2 ^ 32" using init_alignment_le[OF i] f(1) by simp
  show "pool_inv_with p (rev [0..<unat (total_blocks p)])"
    by (rule init_pool_inv(1)[OF i f(1) init_aligned_ge[OF i] hal f(2,3)])
  show "marked p = {}"
    by (rule init_pool_inv(2)[OF i f(1) init_aligned_ge[OF i] hal f(2,3)])
qed

lemma steps_pool_inv:
  assumes "step\<^sup>*\<^sup>* p p'" and "\<exists>js. pool_inv_with p js"
  shows "\<exists>js. pool_inv_with p' js"
  using assms
proof (induction rule: rtranclp_induct)
  case base
  then show ?case .
next
  case (step y z)
  then show ?case using step_pool_inv by blast
qed

text \<open>
  After a successful \<^verbatim>\<open>mempool_init\<close> with a fitting block size, every pool reached by
  calls of the operations and by stores to blocks that are handed out satisfies the
  invariant: a bit is set exactly for the blocks off the free list, the list has
  \<open>free_blocks\<close> nodes, and none twice.
\<close>

lemma fitting_pool_matches:
  assumes i: "mempool_init sb sbs pb pbs bs al po old = Returned MEMPOOL_OK (Some p0) out calls"
    and fit: "block_size_fits pb pbs bs al"
    and s: "step\<^sup>*\<^sup>* p0 p"
  shows "free_list_matches_bitmap p"
proof -
  have "\<exists>js. pool_inv_with p0 js" using init_fits_pool_inv(1)[OF i fit] by blast
  from steps_pool_inv[OF s this] obtain js where "pool_inv_with p js" by blast
  then show ?thesis by (rule pool_inv_matches)
qed

text \<open>
  Allocation pops the free list from its head: the first allocations return the blocks
  at the front of the list, in list order.
\<close>

lemma alloc_n_prefix:
  "pool_inv_with p (is @ js) \<Longrightarrow>
     \<exists>q. alloc_n (length is) p = Some (q, map (block_addr p) is) \<and> pool_inv_with q js \<and>
         marked q = set is \<union> marked p \<and>
         blocks_start q = blocks_start p \<and> block_size q = block_size p \<and>
         total_blocks q = total_blocks p"
proof (induction "is" arbitrary: p)
  case Nil
  then show ?case by simp
next
  case (Cons i "is")
  from Cons.prems have "pool_inv_with p (i # (is @ js))" by simp
  from alloc_pool_inv[OF this] obtain p' calls where
    a: "mempool_alloc (Some p) True = Returned MEMPOOL_OK (Some p') (Some (block_addr p i)) calls"
    and inv': "pool_inv_with p' (is @ js)" and m: "marked p' = insert i (marked p)"
    and f: "blocks_start p' = blocks_start p" "block_size p' = block_size p"
       "total_blocks p' = total_blocks p"
    by blast
  from Cons.IH[OF inv'] obtain q where
    q: "alloc_n (length is) p' = Some (q, map (block_addr p') is)" "pool_inv_with q js"
       "marked q = set is \<union> marked p'"
       "blocks_start q = blocks_start p'" "block_size q = block_size p'"
       "total_blocks q = total_blocks p'"
    by blast
  have ba: "block_addr p' = block_addr p" by (rule block_addr_cong[OF f(1,2)])
  have "alloc_n (length (i # is)) p = Some (q, map (block_addr p) (i # is))"
    using a q(1) by (simp add: ba)
  moreover have "marked q = set (i # is) \<union> marked p" using q(3) m by auto
  ultimately show ?case using q(2,4,5,6) f by auto
qed

text \<open>
  After \<^verbatim>\<open>mempool_init\<close> with a fitting block size the head of the free list is the last
  block, \<open>N\<close> allocations in a row succeed and return the blocks \<open>N - 1\<close>, ..., \<open>0\<close> in
  this order, all \<open>N\<close> bits are set afterwards, and the next call reports that the pool
  is exhausted.
\<close>

lemma init_allocs_descending:
  assumes i: "mempool_init sb sbs pb pbs bs al po old = Returned MEMPOOL_OK (Some p0) out calls"
    and fit: "block_size_fits pb pbs bs al"
  shows "free_list p0 = block_addr p0 (unat (total_blocks p0) - 1)"
    and "\<exists>q. alloc_n (unat (total_blocks p0)) p0
            = Some (q, map (block_addr p0) (rev [0..<unat (total_blocks p0)])) \<and>
          marked q = {..< unat (total_blocks p0)} \<and>
          mempool_alloc (Some q) True
            = Returned MEMPOOL_ERR_OUT_OF_MEMORY (Some q) None
                (mempool_internal_lock q @ mempool_internal_unlock q)"
proof -
  let ?N = "unat (total_blocks p0)"
  have inv: "pool_inv_with p0 (rev [0..<?N])" by (rule init_fits_pool_inv(1)[OF i fit])
  note d = pool_inv_withD[OF inv]
  have Npos: "0 < ?N" by (rule init_total_blocks_pos[OF i])
  then have r: "rev [0..<?N] = (?N - 1) # rev [0..<?N - 1]"
    by (cases ?N) simp_all
  from d(4) show "free_list p0 = block_addr p0 (?N - 1)" by (simp add: r)
  have m0: "marked p0 = {}" by (rule init_fits_pool_inv(2)[OF i fit])
  from alloc_n_prefix[of p0 "rev [0..<?N]" "[]"] inv obtain q where
    q: "alloc_n ?N p0 = Some (q, map (block_addr p0) (rev [0..<?N]))" "pool_inv_with q []"
       "marked q = set (rev [0..<?N]) \<union> marked p0"
    by auto
  have mq: "marked q = {..< ?N}" using q(3) m0 by (simp add: atLeast0LessThan)
  from alloc_pool_inv_empty[OF q(2)] q(1) mq
  show "\<exists>q. alloc_n ?N p0 = Some (q, map (block_addr p0) (rev [0..<?N])) \<and>
          marked q = {..< ?N} \<and>
          mempool_alloc (Some q) True
            = Returned MEMPOOL_ERR_OUT_OF_MEMORY (Some q) None
                (mempool_internal_lock q @ mempool_internal_unlock q)"
    by blast
qed

lemma step_layout_fields:
  "step p p' \<Longrightarrow>
     blocks_start p' = blocks_start p \<and> block_size p' = block_size p \<and>
     total_blocks p' = total_blocks p"
  by (induction rule: step.induct)
     (auto simp: mempool_alloc_def mempool_free_def mempool_reset_def mempool_get_stats_def
        mempool_set_sync_def Let_def split: if_splits option.splits prod.splits)

lemma steps_layout_fields:
  "step\<^sup>*\<^sup>* p p' \<Longrightarrow>
     blocks_start p' = blocks_start p \<and> block_size p' = block_size p \<and>
     total_blocks p' = total_blocks p"
proof (induction rule: rtranclp_induct)
  case base
  show ?case by simp
next
  case (step y z)
  then show ?case using step_layout_fields[of y z] by simp
qed

lemma reset_counters:
  assumes "mempool_reset (Some p) = Returned MEMPOOL_OK (Some p') out calls"
  shows "free_blocks p' = total_blocks p" "alloc_count (stats p') = 0"
    "free_count (stats p') = 0" "peak_usage (stats p') = 0" "used_blocks (stats p') = 0"
    "bitmap_mem p' = memset_bitmap (bitmap_mem p) (unat (bitmap_bytes p))"
    "bitmap_bytes p' = bitmap_bytes p"
  using assms
  by (auto simp: mempool_reset_def Let_def split: if_splits prod.splits)

text \<open>
  With a fitting block size \<^verbatim>\<open>mempool_reset\<close> succeeds in every pool reached and leaves
  the free list that \<^verbatim>\<open>mempool_init\<close> built, block \<open>N - 1\<close> first and block 0 last, no
  bit set, all blocks free, and the counters at zero.
\<close>

lemma reset_same_order_as_init:
  assumes i: "mempool_init sb sbs pb pbs bs al po old = Returned MEMPOOL_OK (Some p0) out calls"
    and fit: "block_size_fits pb pbs bs al"
    and s: "step\<^sup>*\<^sup>* p0 p"
  shows "\<exists>p'. mempool_reset (Some p) =
            Returned MEMPOOL_OK (Some p') None
              (mempool_internal_lock p @ mempool_internal_unlock p') \<and>
          list_from (block_mem p0) (free_list p0)
            (map (block_addr p0) (rev [0..<unat (total_blocks p0)])) \<and>
          list_from (block_mem p') (free_list p')
            (map (block_addr p0) (rev [0..<unat (total_blocks p0)])) \<and>
          marked p' = {} \<and> free_blocks p' = total_blocks p0 \<and>
          total_blocks p' = total_blocks p0 \<and> block_size p' = block_size p0 \<and>
          alloc_count (stats p') = 0 \<and> free_count (stats p') = 0 \<and>
          peak_usage (stats p') = 0 \<and> used_blocks (stats p') = 0"
proof -
  have inv0: "pool_inv_with p0 (rev [0..<unat (total_blocks p0)])"
    by (rule init_fits_pool_inv(1)[OF i fit])
  then have "\<exists>js. pool_inv_with p0 js" by blast
  from steps_pool_inv[OF s this] obtain js where inv: "pool_inv_with p js" by blast
  note f = steps_layout_fields[OF s]
  note d = pool_inv_withD[OF inv]
  from reset_pool_inv[OF d(1,2)] obtain p' where
    r: "mempool_reset (Some p) =
          Returned MEMPOOL_OK (Some p') None (mempool_internal_lock p @ mempool_internal_unlock p')"
    and inv': "pool_inv_with p' (rev [0..<unat (total_blocks p)])"
    and m: "marked p' = {}"
    and f': "blocks_start p' = blocks_start p" "block_size p' = block_size p"
       "total_blocks p' = total_blocks p"
    by blast
  have ba: "block_addr p' = block_addr p0"
    by (rule block_addr_cong) (simp_all add: f f')
  have l': "list_from (block_mem p') (free_list p')
              (map (block_addr p0) (rev [0..<unat (total_blocks p0)]))"
    using pool_inv_withD(4)[OF inv'] by (simp add: ba f)
  note c = reset_counters[OF r]
  show ?thesis
    using r pool_inv_withD(4)[OF inv0] l' m c(1-5) f f' by auto
qed

text \<open>
  In every reachable pool, whatever the block size, a pointer that passes the checks of
  \<^verbatim>\<open>mempool_free\<close> right after a \<^verbatim>\<open>mempool_reset\<close> finds its bit clear: the call reports
  a double free and changes nothing.
\<close>

lemma zeroed_bitmap_bit:
  "k < len \<Longrightarrow> memset_bitmap bm len k = 0"
  by (simp add: memset_bitmap_def)

lemma free_after_reset:
  assumes r: "reachable p"
    and rs: "mempool_reset (Some p) = Returned MEMPOOL_OK (Some p') out calls"
    and nn: "blk \<noteq> 0" and rc: "range_check p' blk" and bc: "boundary_check p' blk"
  shows "mempool_free (Some p') blk =
           Returned MEMPOOL_ERR_DOUBLE_FREE (Some p') None
             (mempool_internal_lock p' @ mempool_internal_unlock p')"
proof -
  have inv': "counts_inv p'"
    using reset_counts_inv reachable_counts_inv[OF r] rs by blast
  note c = reset_counters[OF rs]
  from free_cases_inv[OF inv' nn rc bc] obtain index where
    ix: "index div 8 < bitmap_bytes p'"
    and cs: "if (bitmap_mem p' (unat (index div 8)) AND bit_mask (index mod 8)) = 0 then
        mempool_free (Some p') blk =
          Returned MEMPOOL_ERR_DOUBLE_FREE (Some p') None
            (mempool_internal_lock p' @ mempool_internal_unlock p')
      else
        mempool_free (Some p') blk =
          Returned MEMPOOL_OK (Some (free_post p' blk index)) None
            (mempool_internal_lock p' @ mempool_internal_unlock (free_post p' blk index))
        \<and> free_blocks p' < total_blocks p'
        \<and> free_blocks (free_post p' blk index) \<le> total_blocks p'"
    by blast
  have "unat (index div 8) < unat (bitmap_bytes p)"
    using ix by (simp add: c(7) word_less_nat_alt)
  then have "bitmap_mem p' (unat (index div 8)) = 0"
    by (simp add: c(6) zeroed_bitmap_bit)
  with cs show ?thesis by simp
qed

text \<open>
  The block count of \<^verbatim>\<open>mempool_init\<close> against the constraint of the documentation, for
  pool regions below \<open>2 ^ 63\<close> bytes: a successful call yields the largest count that
  fits; for valid arguments whose rounding up does not wrap around, the call returns
  the invalid-size error when no count fits, and succeeds with the largest count that
  fits when that count is at most \<^verbatim>\<open>UINT32_MAX\<close>.
\<close>

lemma init_max_blocks_nonzero:
  assumes "mempool_init sb sbs pb pbs bs al po old = Returned MEMPOOL_OK (Some p) out calls"
  shows "pbs div align_up bs al \<noteq> 0"
  using assms
  by (auto simp: mempool_init_def Let_def split: if_splits prod.splits)

lemma init_ok_largest:
  assumes i: "mempool_init sb sbs pb pbs bs al po old = Returned MEMPOOL_OK (Some p) out calls"
    and sz: "unat pbs < 2 ^ 63"
  shows "spec_fits (spec_aligned_size (unat bs) (unat al)) (unat al) (unat pbs) (unat (total_blocks p))"
    and "spec_fits (spec_aligned_size (unat bs) (unat al)) (unat al) (unat pbs) M
           \<Longrightarrow> M \<le> unat (total_blocks p)"
proof -
  note v = init_valid_args[OF i]
  from is_power_of_twoD[OF v(1)] obtain k where k: "k < 64" and al: "al = 2 ^ k" by blast
  from init_okD[OF i] obtain n bb bo where
    pl: "plan_loop pbs (align_up bs al) al (pbs div align_up bs al) 0 0 = (n, bb, bo, True)"
    and n32: "\<not> n > UINT32_MAX" and t: "total_blocks p = ucast n"
    by blast
  have bs8: "8 \<le> unat bs" using v(2) by (simp add: sizeof_free_node_t_def word_less_nat_alt)
  have noovf: "unat bs + 2 ^ k - 1 < 2 ^ 64"
    using align_up_nonzero(1)[OF k] v(3) al by simp
  have n0: "pbs div align_up bs (2 ^ k) \<noteq> 0"
    using init_max_blocks_nonzero[OF i] al by simp
  have "unat n \<le> 4294967295"
    using n32 by (simp add: UINT32_MAX_def word_le_nat_alt not_less)
  then have un: "unat (total_blocks p) = unat n" by (simp add: t unat_ucast_down)
  note s = plan_summary(1)[OF k noovf bs8 sz n0 pl[unfolded al], rule_format, OF TrueI]
  show "spec_fits (spec_aligned_size (unat bs) (unat al)) (unat al) (unat pbs) (unat (total_blocks p))"
    using s by (simp add: al unat_2p[OF k] un)
  show "spec_fits (spec_aligned_size (unat bs) (unat al)) (unat al) (unat pbs) M
           \<Longrightarrow> M \<le> unat (total_blocks p)"
    using s by (simp add: al unat_2p[OF k] un)
qed

lemma init_result:
  assumes args: "sb \<noteq> 0" "pb \<noteq> 0" "po" "\<not> sbs < sizeof_mempool" "pbs \<noteq> 0"
    and al: "is_power_of_two al" and algn: "pb AND (al - 1) = 0"
    and bs: "\<not> bs < sizeof_free_node_t"
    and noovf: "unat bs + unat al - 1 < 2 ^ 64"
    and sz: "unat pbs < 2 ^ 63"
  shows "(\<forall>N. \<not> spec_fits (spec_aligned_size (unat bs) (unat al)) (unat al) (unat pbs) N) \<Longrightarrow>
           \<exists>q. mempool_init sb sbs pb pbs bs al po old
                  = Returned MEMPOOL_ERR_INVALID_SIZE q None []"
    and "spec_fits (spec_aligned_size (unat bs) (unat al)) (unat al) (unat pbs) N \<Longrightarrow>
         (\<forall>M. spec_fits (spec_aligned_size (unat bs) (unat al)) (unat al) (unat pbs) M \<longrightarrow> M \<le> N) \<Longrightarrow>
         N \<le> 4294967295 \<Longrightarrow>
           \<exists>p. mempool_init sb sbs pb pbs bs al po old
                  = Returned MEMPOOL_OK (Some p) (Some sb) [] \<and>
               unat (total_blocks p) = N"
proof -
  let ?A = "spec_aligned_size (unat bs) (unat al)" and ?a = "unat al" and ?S = "unat pbs"
  let ?Aw = "align_up bs al"
  from is_power_of_twoD[OF al] obtain k where k: "k < 64" and ak: "al = 2 ^ k" by blast
  have ua: "unat al = 2 ^ k" by (simp add: ak unat_2p[OF k])
  have bs8: "8 \<le> unat bs" using bs by (simp add: sizeof_free_node_t_def word_less_nat_alt)
  have bs0: "bs \<noteq> 0" using bs8 by auto
  have no: "unat bs + 2 ^ k - 1 < 2 ^ 64" using noovf ua by simp
  have uA: "unat ?Aw = ?A" using no by (simp add: ak align_up_pow2[OF k] unat_2p[OF k])
  have "unat bs \<le> ?A" using aligned_size_ge(2)[of "unat al" "unat bs"] bs8 ua by simp
  then have Apos: "0 < ?A" using bs8 by simp
  then have A0: "?Aw \<noteq> 0" using uA by auto
  have un0: "unat (pbs div ?Aw) = ?S div ?A" by (simp add: unat_div uA)
  obtain m bb bo found where
    pl: "plan_loop pbs ?Aw al (pbs div ?Aw) 0 0 = (m, bb, bo, found)"
    by (cases "plan_loop pbs ?Aw al (pbs div ?Aw) 0 0") auto
  have nofit0: "\<not> spec_fits ?A ?a ?S M" if "pbs div ?Aw = 0" for M
  proof (cases "M = 0")
    case True then show ?thesis by (simp add: spec_fits_def)
  next
    case False
    with that un0 have "?S div ?A < M" by simp
    from above_max_blocks[OF Apos this] show ?thesis by (simp add: spec_fits_def)
  qed
  note ps = plan_summary[OF k no bs8 sz _ pl[unfolded ak], folded ak ua]
  show "\<exists>q. mempool_init sb sbs pb pbs bs al po old = Returned MEMPOOL_ERR_INVALID_SIZE q None []"
    if none: "\<forall>N. \<not> spec_fits ?A ?a ?S N"
  proof (cases "pbs div ?Aw = 0")
    case True
    then show ?thesis
      using args al algn bs bs0 A0 by (simp add: mempool_init_def Let_def)
  next
    case False
    with ps(1) none have "\<not> found" by blast
    then show ?thesis
      using args al algn bs bs0 A0 False pl by (simp add: mempool_init_def Let_def)
  qed
  show "\<exists>p. mempool_init sb sbs pb pbs bs al po old
                  = Returned MEMPOOL_OK (Some p) (Some sb) [] \<and> unat (total_blocks p) = N"
    if fN: "spec_fits ?A ?a ?S N" and mx: "\<forall>M. spec_fits ?A ?a ?S M \<longrightarrow> M \<le> N" and N32: "N \<le> 4294967295"
  proof -
    have n0: "pbs div ?Aw \<noteq> 0" using nofit0 fN by blast
    have fnd: found using ps(2)[OF n0] fN by blast
    from ps(1)[OF n0] fnd have fm: "spec_fits ?A ?a ?S (unat m)"
      and mm: "\<forall>M. spec_fits ?A ?a ?S M \<longrightarrow> M \<le> unat m" by blast+
    have um: "unat m = N" using fN mx fm mm by (simp add: order_antisym)
    have m0: "m \<noteq> 0" using fm by (auto simp: spec_fits_def)
    have m32: "\<not> m > UINT32_MAX"
      using N32 um by (simp add: UINT32_MAX_def word_less_nat_alt)
    from plan_loop_result[OF pl[unfolded fnd[THEN eqTrueI]]] have bbd: "bb = (m + 7) div 8" by blast
    have "unat bb = (unat m + 7) div 8"
      using N32 um by (simp add: bbd unat_div unat_word_ariths)
    then have bb32: "\<not> bb > UINT32_MAX"
      using N32 um by (simp add: UINT32_MAX_def word_less_nat_alt)
    have ut: "unat (ucast m :: uint32_t) = N" using N32 um by (simp add: unat_ucast_down)
    show ?thesis
      using args al algn bs bs0 A0 n0 pl fnd m0 m32 bb32 ut
      by (simp add: mempool_init_def Let_def split: prod.splits)
  qed
qed

section \<open>Allocate, release, release again\<close>

text \<open>
  With a fitting block size and a pool region that ends below the top of the address
  space, a block that \<^verbatim>\<open>mempool_alloc\<close> returns passes the checks of \<^verbatim>\<open>mempool_free\<close> and
  has its bit set: the first release succeeds, the second one reports a double free,
  and \<open>free_count\<close> has grown by one.
\<close>

lemma marked_bit_set:
  assumes "unat idx \<in> marked_in bm len"
  shows "(bm (unat (idx div 8)) AND bit_mask (idx mod 8)) \<noteq> 0"
proof -
  have lt8: "unat (idx mod 8) < 8"
    by (metis idx_div_mod(2) mod_less_divisor zero_less_numeral)
  from assms have "bit (bm (unat (idx div 8))) (unat (idx mod 8))"
    by (simp add: marked_in_def idx_div_mod)
  moreover have "bit (bit_mask (idx mod 8)) (unat (idx mod 8))"
    using lt8 by (simp add: bit_bit_mask)
  ultimately have "bit (bm (unat (idx div 8)) AND bit_mask (idx mod 8)) (unat (idx mod 8))"
    by (simp add: bit_and_iff)
  then show ?thesis by auto
qed

lemma block_passes_checks:
  assumes lay: "layout_ok p" and i: "i < unat (total_blocks p)"
    and top: "unat (blocks_start p) + unat (total_blocks p) * unat (block_size p) < 2 ^ 64"
  shows "range_check p (block_addr p i)" and "boundary_check p (block_addr p i)"
proof -
  let ?B = "unat (block_size p)" and ?T = "unat (total_blocks p)"
  note u = block_addr_unat[OF lay i]
  note B = layout_okD(2)[OF lay]
  have TB: "unat (ucast (total_blocks p) * ucast (block_size p) :: uintptr_t) = ?T * ?B"
    using top by (simp add: unat_word_ariths(2) unat_ucast_up)
  have e: "unat (blocks_end_addr p) = unat (blocks_start p) + ?T * ?B"
    unfolding blocks_end_addr_def using top
    by (simp only: unat_word_ariths(1) TB) simp
  have iB: "i * ?B < ?T * ?B" by (rule mult_less_mono1) (use i B in simp_all)
  show "range_check p (block_addr p i)"
    using iB by (simp add: range_check_def word_less_nat_alt word_le_nat_alt u(1) e)
  have "block_addr p i - blocks_start p = of_nat i * ucast (block_size p)"
    by (simp add: block_addr_def)
  then have "unat ((block_addr p i - blocks_start p) mod ucast (block_size p)) = 0"
    by (simp add: unat_mod u(2) unat_ucast_up)
  then show "boundary_check p (block_addr p i)"
    by (simp add: boundary_check_def unat_eq_0)
qed

lemma alloc_free_free:
  assumes inv: "pool_inv_with p (i # js)"
    and top: "unat (blocks_start p) + unat (total_blocks p) * unat (block_size p) < 2 ^ 64"
  shows "\<exists>p1 p2 c1 c2 c3.
           mempool_alloc (Some p) True
             = Returned MEMPOOL_OK (Some p1) (Some (block_addr p i)) c1 \<and>
           mempool_free (Some p1) (block_addr p i) = Returned MEMPOOL_OK (Some p2) None c2 \<and>
           mempool_free (Some p2) (block_addr p i)
             = Returned MEMPOOL_ERR_DOUBLE_FREE (Some p2) None c3 \<and>
           free_count (stats p2) = free_count (stats p) + 1"
proof -
  from alloc_pool_inv[OF inv] obtain p1 c1 where
    a: "mempool_alloc (Some p) True = Returned MEMPOOL_OK (Some p1) (Some (block_addr p i)) c1"
    and inv1: "pool_inv_with p1 js" and m1: "marked p1 = insert i (marked p)"
    and f: "blocks_start p1 = blocks_start p" "block_size p1 = block_size p"
       "total_blocks p1 = total_blocks p"
    by blast
  note d = pool_inv_withD[OF inv]
  note d1 = pool_inv_withD[OF inv1]
  have iT: "i < unat (total_blocks p1)" using d(6) f(3) by auto
  have ba: "block_addr p1 = block_addr p" by (rule block_addr_cong[OF f(1,2)])
  let ?B = "block_addr p i"
  have top1: "unat (blocks_start p1) + unat (total_blocks p1) * unat (block_size p1) < 2 ^ 64"
    using top by (simp add: f)
  note ck = block_passes_checks[OF d1(2) iT top1, unfolded ba]
  have nz: "?B \<noteq> 0" using block_addr_nonzero[OF d1(2) iT] by (simp add: ba)
  note ix = block_addr_index[OF d1(2) iT, unfolded ba]
  have "unat (of_nat i :: uint32_t) \<in> marked_in (bitmap_mem p1) (unat (bitmap_bytes p1))"
    using m1 by (simp add: ix(2) marked_def)
  from marked_bit_set[OF this]
  have set: "(bitmap_mem p1 (unat ((of_nat i :: uint32_t) div 8))
               AND bit_mask (of_nat i mod 8)) \<noteq> 0" .
  from free_cases_inv[OF d1(1) nz ck] ix(1) set
  have f1: "mempool_free (Some p1) ?B =
          Returned MEMPOOL_OK (Some (free_post p1 ?B (of_nat i))) None
            (mempool_internal_lock p1 @ mempool_internal_unlock (free_post p1 ?B (of_nat i)))"
    by auto
  let ?p2 = "free_post p1 ?B (of_nat i)"
  have c2: "counts_inv ?p2" by (rule free_counts_inv[OF d1(1) f1])
  have rc2: "range_check ?p2 ?B" using ck(1)
    by (simp add: free_post_def range_check_def blocks_end_addr_def)
  have bc2: "boundary_check ?p2 ?B" using ck(2)
    by (simp add: free_post_def boundary_check_def)
  have ix2: "mempool_block_index ?p2 ?B = Some (of_nat i)"
    using ix(1) by (simp add: block_index_free_post)
  have clr: "(bitmap_mem ?p2 (unat ((of_nat i :: uint32_t) div 8))
               AND bit_mask (of_nat i mod 8)) = 0"
    by (simp add: free_post_def bit_mask_clear)
  from free_cases_inv[OF c2 nz rc2 bc2] ix2 clr
  have f2: "mempool_free (Some ?p2) ?B =
           Returned MEMPOOL_ERR_DOUBLE_FREE (Some ?p2) None
             (mempool_internal_lock ?p2 @ mempool_internal_unlock ?p2)"
    by auto
  have "free_count (stats ?p2) = free_count (stats p1) + 1" by (simp add: free_post_def)
  then have fc: "free_count (stats ?p2) = free_count (stats p) + 1"
    using alloc_ok_free_count[OF a] by simp
  from a f1 f2 fc show ?thesis by blast
qed

lemma init_blocks_below_top:
  assumes i: "mempool_init sb sbs pb pbs bs al po old = Returned MEMPOOL_OK (Some p) out calls"
    and fit: "block_size_fits pb pbs bs al"
  shows "unat (blocks_start p) + unat (total_blocks p) * unat (block_size p)
           \<le> unat pb + unat pbs"
proof -
  from fit have f: "unat (align_up bs al) < 2 ^ 32" "unat pbs < 2 ^ 63"
    "unat pb + unat pbs \<le> 2 ^ 64"
    by (simp_all add: block_size_fits_def)
  have hal: "unat al \<le> 2 ^ 32" using init_alignment_le[OF i] f(1) by simp
  show ?thesis by (rule init_pool_inv(4)[OF i f(1) init_aligned_ge[OF i] hal f(2,3)])
qed

lemma fitting_alloc_free_free:
  assumes i: "mempool_init sb sbs pb pbs bs al po old = Returned MEMPOOL_OK (Some p0) out calls"
    and fit: "block_size_fits pb pbs bs al"
    and top: "unat pb + unat pbs < 2 ^ 64"
    and s: "step\<^sup>*\<^sup>* p0 p"
    and a: "mempool_alloc (Some p) True = Returned MEMPOOL_OK (Some p1) (Some B) c1"
  shows "\<exists>p2 c2 c3.
           mempool_free (Some p1) B = Returned MEMPOOL_OK (Some p2) None c2 \<and>
           mempool_free (Some p2) B = Returned MEMPOOL_ERR_DOUBLE_FREE (Some p2) None c3 \<and>
           free_count (stats p2) = free_count (stats p) + 1"
proof -
  have "\<exists>js. pool_inv_with p0 js" using init_fits_pool_inv(1)[OF i fit] by blast
  from steps_pool_inv[OF s this] obtain js where inv: "pool_inv_with p js" by blast
  note f = steps_layout_fields[OF s]
  have t: "unat (blocks_start p) + unat (total_blocks p) * unat (block_size p) < 2 ^ 64"
    using init_blocks_below_top[OF i fit] top by (simp add: f)
  show ?thesis
  proof (cases js)
    case Nil
    with inv a alloc_pool_inv_empty[of p] show ?thesis by simp
  next
    case (Cons j js')
    with inv have "pool_inv_with p (j # js')" by simp
    from alloc_free_free[OF this t] a show ?thesis by auto
  qed
qed

section \<open>What an exhausted pool records\<close>

text \<open>
  With a fitting block size and a pool region that ends below the top of the address
  space, after \<open>N\<close> allocations in a row the next call reports exhaustion, and every
  block returned before is still recorded as allocated: the pool regards it as handed
  out, and \<^verbatim>\<open>mempool_free\<close> accepts it.
\<close>

lemma exhausted_blocks_recorded:
  assumes i: "mempool_init sb sbs pb pbs bs al po old = Returned MEMPOOL_OK (Some p0) out calls"
    and fit: "block_size_fits pb pbs bs al"
    and top: "unat pb + unat pbs < 2 ^ 64"
  shows "\<exists>q. alloc_n (unat (total_blocks p0)) p0
            = Some (q, map (block_addr p0) (rev [0..<unat (total_blocks p0)])) \<and>
          mempool_alloc (Some q) True
            = Returned MEMPOOL_ERR_OUT_OF_MEMORY (Some q) None
                (mempool_internal_lock q @ mempool_internal_unlock q) \<and>
          (\<forall>i < unat (total_blocks p0).
             held q (block_addr p0 i) \<and>
             (\<exists>q' c. mempool_free (Some q) (block_addr p0 i)
                       = Returned MEMPOOL_OK (Some q') None c))"
proof -
  let ?N = "unat (total_blocks p0)"
  have inv: "pool_inv_with p0 (rev [0..<?N])" by (rule init_fits_pool_inv(1)[OF i fit])
  have m0: "marked p0 = {}" by (rule init_fits_pool_inv(2)[OF i fit])
  from alloc_n_prefix[of p0 "rev [0..<?N]" "[]"] inv obtain q where
    q: "alloc_n ?N p0 = Some (q, map (block_addr p0) (rev [0..<?N]))" "pool_inv_with q []"
       "marked q = set (rev [0..<?N]) \<union> marked p0"
    and f: "blocks_start q = blocks_start p0" "block_size q = block_size p0"
       "total_blocks q = total_blocks p0"
    by auto
  note dq = pool_inv_withD[OF q(2)]
  have ba: "block_addr q = block_addr p0" by (rule block_addr_cong[OF f(1,2)])
  have topq: "unat (blocks_start q) + unat (total_blocks q) * unat (block_size q) < 2 ^ 64"
    using init_blocks_below_top[OF i fit] top by (simp add: f)
  have each: "held q (block_addr p0 j) \<and>
      (\<exists>q' c. mempool_free (Some q) (block_addr p0 j) = Returned MEMPOOL_OK (Some q') None c)"
    if j: "j < ?N" for j
  proof -
    have jq: "j < unat (total_blocks q)" using j by (simp add: f(3))
    note ck = block_passes_checks[OF dq(2) jq topq, unfolded ba]
    have nz: "block_addr p0 j \<noteq> 0" using block_addr_nonzero[OF dq(2) jq] by (simp add: ba)
    note ix = block_addr_index[OF dq(2) jq, unfolded ba]
    note bx = index_byte_in_bitmap[OF counts_invD(9)[OF dq(1)] jq]
    have "unat (of_nat j :: uint32_t) \<in> marked_in (bitmap_mem q) (unat (bitmap_bytes q))"
      using q(3) j by (simp add: ix(2) marked_def[symmetric])
    from marked_bit_set[OF this]
    have set: "(bitmap_mem q (unat ((of_nat j :: uint32_t) div 8))
                 AND bit_mask (of_nat j mod 8)) \<noteq> 0" .
    have h: "held q (block_addr p0 j)"
      using ck layout_okD(1)[OF dq(2)] ix(1) bx(1) set by (simp add: held_def)
    from free_cases_inv[OF dq(1) nz ck] ix(1) set
    have "\<exists>q' c. mempool_free (Some q) (block_addr p0 j) = Returned MEMPOOL_OK (Some q') None c"
      by auto
    with h show ?thesis by blast
  qed
  from alloc_pool_inv_empty[OF q(2)] q(1) each show ?thesis by blast
qed

end
